theory Spec2Isabelle
  imports Complex_Main "HOL-Library.DAList"
begin

section \<open>Objects and errors\<close>

text \<open>
  A stored object is a Go \<^verbatim>\<open>interface{}\<close> value: either the nil interface or a
  value of the payload type. A Go \<^verbatim>\<open>error\<close> is modelled by its message. A panic
  raised while indexing carries the key, the index name and the cause.
\<close>

datatype 'o object = nil | Obj 'o

datatype error = Error string

datatype 'o KeyError = KeyError "'o object" error

datatype panic = IndexPanic string string error

section \<open>The thread-safe indexed store (tools/cache/thread\_safe\_store.go)\<close>

text \<open>
  \<^verbatim>\<open>Indexers\<close> is a Go map from index name to index function; ranging over it
  visits every name once, so it is a list of bindings with distinct names
  (\<^typ>\<open>('k, 'v) alist\<close>). \<^verbatim>\<open>Index\<close> maps an index value to a set of store keys,
  \<^verbatim>\<open>Indices\<close> maps an index name to its \<^verbatim>\<open>Index\<close>. The lock is not modelled:
  every operation runs under it from start to end.
\<close>

type_synonym 'o IndexFunc = "'o object \<Rightarrow> error + string list"
type_synonym 'o Indexers = "(string, 'o IndexFunc) alist"
type_synonym Index = "string \<rightharpoonup> string set"
type_synonym Indices = "string \<rightharpoonup> Index"

record 'o threadSafeMap =
  items :: "string \<rightharpoonup> 'o object"
  indexers :: "'o Indexers"
  indices :: Indices

definition NewThreadSafeStore :: "'o Indexers \<Rightarrow> Indices \<Rightarrow> 'o threadSafeMap" where
  "NewThreadSafeStore ixs ind = \<lparr>items = Map.empty, indexers = ixs, indices = ind\<rparr>"

text \<open>
  The inner loop of \<^verbatim>\<open>deleteFromIndices\<close>: for each index value, drop the key
  from the bucket when the bucket exists, and delete the bucket once it is empty.
\<close>

fun deleteValues :: "string \<Rightarrow> string list \<Rightarrow> Index \<Rightarrow> Index" where
  "deleteValues key [] index = index"
| "deleteValues key (indexValue # rest) index =
     deleteValues key rest
       (case index indexValue of
          None \<Rightarrow> index
        | Some set0 \<Rightarrow>
            (if set0 - {key} = {} then index(indexValue := None)
             else index(indexValue \<mapsto> set0 - {key})))"

text \<open>
  The outer loop of \<^verbatim>\<open>deleteFromIndices\<close> over the indexers: a failing index
  function panics, an index that does not exist yet is skipped.
\<close>

fun deleteLoop ::
  "(string \<times> 'o IndexFunc) list \<Rightarrow> 'o object \<Rightarrow> string \<Rightarrow> Indices \<Rightarrow> panic + Indices" where
  "deleteLoop [] obj key ind = Inr ind"
| "deleteLoop ((name, indexFunc) # rest) obj key ind =
     (case indexFunc obj of
        Inl err \<Rightarrow> Inl (IndexPanic key name err)
      | Inr indexValues \<Rightarrow>
          (case ind name of
             None \<Rightarrow> deleteLoop rest obj key ind
           | Some index \<Rightarrow>
               deleteLoop rest obj key (ind(name \<mapsto> deleteValues key indexValues index))))"

definition deleteFromIndices ::
  "'o threadSafeMap \<Rightarrow> 'o object \<Rightarrow> string \<Rightarrow> panic + 'o threadSafeMap" where
  "deleteFromIndices c obj key =
     (case deleteLoop (DAList.impl_of (indexers c)) obj key (indices c) of
        Inl p \<Rightarrow> Inl p
      | Inr ind \<Rightarrow> Inr (c\<lparr>indices := ind\<rparr>))"

text \<open>
  The inner loop of \<^verbatim>\<open>updateIndices\<close>: for each index value, create the bucket
  when it is missing and insert the key.
\<close>

fun insertValues :: "string \<Rightarrow> string list \<Rightarrow> Index \<Rightarrow> Index" where
  "insertValues key [] index = index"
| "insertValues key (indexValue # rest) index =
     insertValues key rest
       (index(indexValue \<mapsto>
          (case index indexValue of None \<Rightarrow> {key} | Some set0 \<Rightarrow> insert key set0)))"

fun insertLoop ::
  "(string \<times> 'o IndexFunc) list \<Rightarrow> 'o object \<Rightarrow> string \<Rightarrow> Indices \<Rightarrow> panic + Indices" where
  "insertLoop [] newObj key ind = Inr ind"
| "insertLoop ((name, indexFunc) # rest) newObj key ind =
     (case indexFunc newObj of
        Inl err \<Rightarrow> Inl (IndexPanic key name err)
      | Inr indexValues \<Rightarrow>
          insertLoop rest newObj key
            (ind(name \<mapsto>
               insertValues key indexValues
                 (case ind name of None \<Rightarrow> Map.empty | Some index \<Rightarrow> index))))"

text \<open>
  \<^verbatim>\<open>updateIndices\<close>: the old object is removed from the indices only when it is
  not nil; then the new object is indexed.
\<close>

definition updateIndices ::
  "'o threadSafeMap \<Rightarrow> 'o object \<Rightarrow> 'o object \<Rightarrow> string \<Rightarrow> panic + 'o threadSafeMap" where
  "updateIndices c oldObj newObj key =
     (case (if oldObj \<noteq> nil then deleteFromIndices c oldObj key else Inr c) of
        Inl p \<Rightarrow> Inl p
      | Inr c1 \<Rightarrow>
          (case insertLoop (DAList.impl_of (indexers c1)) newObj key (indices c1) of
             Inl p \<Rightarrow> Inl p
           | Inr ind \<Rightarrow> Inr (c1\<lparr>indices := ind\<rparr>)))"

text \<open>Reading a Go map at a missing key gives the zero value, here the nil interface.\<close>

definition itemAt :: "'o threadSafeMap \<Rightarrow> string \<Rightarrow> 'o object" where
  "itemAt c key = (case items c key of None \<Rightarrow> nil | Some obj \<Rightarrow> obj)"

definition tsAdd :: "'o threadSafeMap \<Rightarrow> string \<Rightarrow> 'o object \<Rightarrow> panic + 'o threadSafeMap" where
  "tsAdd c key obj =
     (let oldObject = itemAt c key
      in updateIndices (c\<lparr>items := (items c)(key \<mapsto> obj)\<rparr>) oldObject obj key)"

definition tsUpdate :: "'o threadSafeMap \<Rightarrow> string \<Rightarrow> 'o object \<Rightarrow> panic + 'o threadSafeMap" where
  "tsUpdate c key obj =
     (let oldObject = itemAt c key
      in updateIndices (c\<lparr>items := (items c)(key \<mapsto> obj)\<rparr>) oldObject obj key)"

definition tsDelete :: "'o threadSafeMap \<Rightarrow> string \<Rightarrow> panic + 'o threadSafeMap" where
  "tsDelete c key =
     (case items c key of
        Some obj \<Rightarrow>
          (case deleteFromIndices c obj key of
             Inl p \<Rightarrow> Inl p
           | Inr c1 \<Rightarrow> Inr (c1\<lparr>items := (items c1)(key := None)\<rparr>))
      | None \<Rightarrow> Inr c)"

definition tsGet :: "'o threadSafeMap \<Rightarrow> string \<Rightarrow> 'o object \<times> bool" where
  "tsGet c key = (case items c key of None \<Rightarrow> (nil, False) | Some obj \<Rightarrow> (obj, True))"

text \<open>
  \<^verbatim>\<open>Replace\<close> installs the given map, empties the indices and indexes every
  entry with no old object.
\<close>

fun rebuildLoop ::
  "(string \<times> 'o object) list \<Rightarrow> 'o threadSafeMap \<Rightarrow> panic + 'o threadSafeMap" where
  "rebuildLoop [] c = Inr c"
| "rebuildLoop ((key, item) # rest) c =
     (case updateIndices c nil item key of
        Inl p \<Rightarrow> Inl p
      | Inr c1 \<Rightarrow> rebuildLoop rest c1)"

definition tsReplace ::
  "'o threadSafeMap \<Rightarrow> (string, 'o object) alist \<Rightarrow> panic + 'o threadSafeMap" where
  "tsReplace c newItems =
     rebuildLoop (DAList.impl_of newItems)
       (c\<lparr>items := DAList.lookup newItems, indices := Map.empty\<rparr>)"

section \<open>The cache: a store with a key function (tools/cache/store.go)\<close>

type_synonym 'o KeyFunc = "'o object \<Rightarrow> error + string"

record 'o cache =
  cacheStorage :: "'o threadSafeMap"
  keyFunc :: "'o KeyFunc"

text \<open>
  Every operation returns the error value of the Go method (\<open>None\<close> is a nil error)
  and the cache after the call, or the panic of the indexing code.
\<close>

definition cacheAdd :: "'o cache \<Rightarrow> 'o object \<Rightarrow> panic + ('o KeyError option \<times> 'o cache)" where
  "cacheAdd c obj =
     (case keyFunc c obj of
        Inl err \<Rightarrow> Inr (Some (KeyError obj err), c)
      | Inr key \<Rightarrow>
          (case tsAdd (cacheStorage c) key obj of
             Inl p \<Rightarrow> Inl p
           | Inr s \<Rightarrow> Inr (None, c\<lparr>cacheStorage := s\<rparr>)))"

definition cacheUpdate :: "'o cache \<Rightarrow> 'o object \<Rightarrow> panic + ('o KeyError option \<times> 'o cache)" where
  "cacheUpdate c obj =
     (case keyFunc c obj of
        Inl err \<Rightarrow> Inr (Some (KeyError obj err), c)
      | Inr key \<Rightarrow>
          (case tsUpdate (cacheStorage c) key obj of
             Inl p \<Rightarrow> Inl p
           | Inr s \<Rightarrow> Inr (None, c\<lparr>cacheStorage := s\<rparr>)))"

definition cacheDelete :: "'o cache \<Rightarrow> 'o object \<Rightarrow> panic + ('o KeyError option \<times> 'o cache)" where
  "cacheDelete c obj =
     (case keyFunc c obj of
        Inl err \<Rightarrow> Inr (Some (KeyError obj err), c)
      | Inr key \<Rightarrow>
          (case tsDelete (cacheStorage c) key of
             Inl p \<Rightarrow> Inl p
           | Inr s \<Rightarrow> Inr (None, c\<lparr>cacheStorage := s\<rparr>)))"

text \<open>
  The loop of \<^verbatim>\<open>cache.Replace\<close> builds the new map entry by entry
  (\<^verbatim>\<open>items[key] = item\<close>, a later entry overwriting an earlier one with the same
  key) and returns at the first key-function failure.
\<close>

fun replaceKeys ::
  "'o KeyFunc \<Rightarrow> 'o object list \<Rightarrow> (string, 'o object) alist \<Rightarrow>
     'o KeyError + (string, 'o object) alist" where
  "replaceKeys kf [] acc = Inr acc"
| "replaceKeys kf (item # rest) acc =
     (case kf item of
        Inl err \<Rightarrow> Inl (KeyError item err)
      | Inr key \<Rightarrow> replaceKeys kf rest (DAList.update key item acc))"

definition cacheReplace ::
  "'o cache \<Rightarrow> 'o object list \<Rightarrow> panic + ('o KeyError option \<times> 'o cache)" where
  "cacheReplace c list0 =
     (case replaceKeys (keyFunc c) list0 DAList.empty of
        Inl kerr \<Rightarrow> Inr (Some kerr, c)
      | Inr newItems \<Rightarrow>
          (case tsReplace (cacheStorage c) newItems of
             Inl p \<Rightarrow> Inl p
           | Inr s \<Rightarrow> Inr (None, c\<lparr>cacheStorage := s\<rparr>)))"

definition NewIndexer :: "'o KeyFunc \<Rightarrow> 'o Indexers \<Rightarrow> 'o cache" where
  "NewIndexer kf ixs = \<lparr>cacheStorage = NewThreadSafeStore ixs Map.empty, keyFunc = kf\<rparr>"

definition NewStore :: "'o KeyFunc \<Rightarrow> 'o cache" where
  "NewStore kf = \<lparr>cacheStorage = NewThreadSafeStore DAList.empty Map.empty, keyFunc = kf\<rparr>"

definition nameKey :: "string KeyFunc" where
  "nameKey obj = (case obj of nil \<Rightarrow> Inl (Error ''object has no meta'') | Obj s \<Rightarrow> Inr s)"

definition oneItemCache :: "string cache" where
  "oneItemCache =
     \<lparr>cacheStorage =
        \<lparr>items = [''old'' \<mapsto> Obj ''old''], indexers = DAList.empty, indices = Map.empty\<rparr>,
      keyFunc = nameKey\<rparr>"

section \<open>Event handlers (tools/cache/controller.go)\<close>

text \<open>
  A \<^verbatim>\<open>ResourceEventHandler\<close> is an interface of three notification methods; a
  method is modelled by its effect on the state \<open>'s\<close> that the handler acts on.
  The filter of a \<^verbatim>\<open>FilteringResourceEventHandler\<close> is a predicate without
  effect.
\<close>

record ('o, 's) ResourceEventHandler =
  OnAdd :: "'o object \<Rightarrow> 's \<Rightarrow> 's"
  OnUpdate :: "'o object \<Rightarrow> 'o object \<Rightarrow> 's \<Rightarrow> 's"
  OnDelete :: "'o object \<Rightarrow> 's \<Rightarrow> 's"

record ('o, 's) FilteringResourceEventHandler =
  FilterFunc :: "'o object \<Rightarrow> bool"
  Handler :: "('o, 's) ResourceEventHandler"

definition filteringOnAdd ::
  "('o, 's) FilteringResourceEventHandler \<Rightarrow> 'o object \<Rightarrow> 's \<Rightarrow> 's" where
  "filteringOnAdd r obj s = (if \<not> FilterFunc r obj then s else OnAdd (Handler r) obj s)"

definition filteringOnUpdate ::
  "('o, 's) FilteringResourceEventHandler \<Rightarrow> 'o object \<Rightarrow> 'o object \<Rightarrow> 's \<Rightarrow> 's" where
  "filteringOnUpdate r oldObj newObj s =
     (let newer = FilterFunc r newObj;
          older = FilterFunc r oldObj
      in if newer \<and> older then OnUpdate (Handler r) oldObj newObj s
         else if newer \<and> \<not> older then OnAdd (Handler r) newObj s
         else if \<not> newer \<and> older then OnDelete (Handler r) oldObj s
         else s)"

definition filteringOnDelete ::
  "('o, 's) FilteringResourceEventHandler \<Rightarrow> 'o object \<Rightarrow> 's \<Rightarrow> 's" where
  "filteringOnDelete r obj s = (if \<not> FilterFunc r obj then s else OnDelete (Handler r) obj s)"

text \<open>A handler that records the notifications it receives, in order.\<close>

datatype 'o notification =
  Added "'o object" | Updated "'o object" "'o object" | Deleted "'o object"

definition recorder :: "('o, 'o notification list) ResourceEventHandler" where
  "recorder =
     \<lparr>OnAdd = (\<lambda>obj s. s @ [Added obj]),
      OnUpdate = (\<lambda>oldObj newObj s. s @ [Updated oldObj newObj]),
      OnDelete = (\<lambda>obj s. s @ [Deleted obj])\<rparr>"

definition labelIsFoo :: "string object \<Rightarrow> bool" where
  "labelIsFoo obj = (obj = Obj ''foo'')"

section \<open>Object keys (tools/cache/store.go)\<close>

text \<open>
  \<^verbatim>\<open>MetaNamespaceKeyFunc\<close> looks at an object in two ways: as an
  \<^verbatim>\<open>ExplicitKey\<close>, or through the accessor of its metadata, which yields the
  namespace and the name or fails. The accessor belongs to another library; an
  object is therefore an explicit key, a value with a namespace and a name, or
  a value without metadata.
\<close>

datatype api_object =
  ExplicitKey string
| WithMeta (GetNamespace: string) (GetName: string)
| NoMeta

definition MetaNamespaceKeyFunc :: "api_object KeyFunc" where
  "MetaNamespaceKeyFunc obj =
     (case obj of
        Obj (ExplicitKey key) \<Rightarrow> Inr key
      | Obj (WithMeta ns n) \<Rightarrow> (if length ns > 0 then Inr (ns @ ''/'' @ n) else Inr n)
      | _ \<Rightarrow> Inl (Error ''object has no meta''))"

text \<open>
  \<^verbatim>\<open>strings.Split\<close> with a separator of one byte: the pieces between the
  separators, one more than there are separators.
\<close>

fun splitOn :: "char \<Rightarrow> string \<Rightarrow> string list" where
  "splitOn sep [] = [[]]"
| "splitOn sep (x # xs) =
     (if x = sep then [] # splitOn sep xs
      else (case splitOn sep xs of [] \<Rightarrow> [[x]] | p # ps \<Rightarrow> (x # p) # ps))"

text \<open>The error message of the source also quotes the key.\<close>

definition SplitMetaNamespaceKey :: "string \<Rightarrow> error + (string \<times> string)" where
  "SplitMetaNamespaceKey key =
     (case splitOn CHR ''/'' key of
        [p0] \<Rightarrow> Inr ([], p0)
      | [p0, p1] \<Rightarrow> Inr (p0, p1)
      | _ \<Rightarrow> Inl (Error ''unexpected key format''))"

section \<open>Floating-point values of the backoff computation\<close>

text \<open>
  \<^verbatim>\<open>When\<close> of the exponential limiter computes in \<^verbatim>\<open>float64\<close>. A \<^verbatim>\<open>float64\<close>
  is a rational number, an infinity or NaN. A finite value has 53 significant
  bits, is a multiple of \<open>2 ^ - 1074\<close> and is below \<open>2 ^ 1024\<close>; results are
  rounded to nearest, ties to even. The sign of zero is not modelled: no
  result of \<^verbatim>\<open>When\<close> depends on it.
\<close>

datatype float64 = Finite rat | PosInf | NegInf | NaN

text \<open>The number of low bits that a magnitude has beyond 53 significant bits.\<close>

function excessBits :: "int \<Rightarrow> nat" where
  "excessBits a = (if a < 2 ^ 53 then 0 else Suc (excessBits (a div 2)))"
  by pat_completeness auto
termination
  by (relation "measure (\<lambda>a. nat a)") auto

declare excessBits.simps [simp del]

text \<open>
  The number of doublings that bring a magnitude below \<open>2 ^ 52\<close> up to
  \<open>2 ^ 52\<close>, counted from \<open>j\<close>; there are at most 1074, the unit of the smallest
  numbers being \<open>2 ^ - 1074\<close>.
\<close>

function missingBits :: "rat \<Rightarrow> nat \<Rightarrow> nat" where
  "missingBits a j =
     (if a \<ge> 2 ^ 52 \<or> j \<ge> 1074 then j else missingBits (2 * a) (Suc j))"
  by pat_completeness auto
termination
  by (relation "measure (\<lambda>(a, j). 1074 - j)") auto

declare missingBits.simps [simp del]

text \<open>The integer nearest to a rational number, the even one of two nearest.\<close>

definition roundHalfEven :: "rat \<Rightarrow> int" where
  "roundHalfEven t =
     (let fl = \<lfloor>t\<rfloor>;
          r = t - of_int fl
      in if r > 1 / 2 \<or> (r = 1 / 2 \<and> odd fl) then fl + 1 else fl)"

text \<open>
  Rounding a magnitude to 53 significant bits: a magnitude from \<open>2 ^ 53\<close> on
  is scaled down by its excess bits, a smaller one is scaled up by its missing
  bits, and the scaled magnitude is rounded to an integer.
\<close>

definition roundMagnitude :: "rat \<Rightarrow> rat" where
  "roundMagnitude a =
     (if a \<ge> 2 ^ 53
      then (let k = excessBits \<lfloor>a\<rfloor> in of_int (roundHalfEven (a / 2 ^ k)) * 2 ^ k)
      else (let j = missingBits a 0 in of_int (roundHalfEven (a * 2 ^ j)) / 2 ^ j))"

definition roundFloat64 :: "rat \<Rightarrow> float64" where
  "roundFloat64 v =
     (let m = roundMagnitude \<bar>v\<bar>
      in if m \<ge> 2 ^ 1024 then (if v < 0 then NegInf else PosInf)
         else Finite (if v < 0 then - m else m))"

text \<open>\<^verbatim>\<open>float64(n)\<close> for an integer \<open>n\<close>.\<close>

definition float64_of_int :: "int \<Rightarrow> float64" where
  "float64_of_int n = roundFloat64 (of_int n)"

text \<open>
  \<^verbatim>\<open>math.Pow(2, float64(exp))\<close> for a count \<open>e\<close>: the power of two when it is
  a \<^verbatim>\<open>float64\<close>, infinity above and zero below. (The conversion of the count
  to \<^verbatim>\<open>float64\<close> rounds counts beyond \<open>2 ^ 53\<close> only, which stay on their side
  of the two bounds.)
\<close>

definition pow2 :: "int \<Rightarrow> float64" where
  "pow2 e =
     (if e > 1023 then PosInf
      else if e < - 1074 then Finite 0
      else if e \<ge> 0 then Finite (2 ^ nat e)
      else Finite (1 / 2 ^ nat (- e)))"

fun fmul :: "float64 \<Rightarrow> float64 \<Rightarrow> float64" where
  "fmul NaN y = NaN"
| "fmul x NaN = NaN"
| "fmul (Finite a) (Finite b) = roundFloat64 (a * b)"
| "fmul (Finite a) PosInf = (if a = 0 then NaN else if a > 0 then PosInf else NegInf)"
| "fmul (Finite a) NegInf = (if a = 0 then NaN else if a > 0 then NegInf else PosInf)"
| "fmul PosInf (Finite b) = (if b = 0 then NaN else if b > 0 then PosInf else NegInf)"
| "fmul NegInf (Finite b) = (if b = 0 then NaN else if b > 0 then NegInf else PosInf)"
| "fmul PosInf PosInf = PosInf"
| "fmul PosInf NegInf = NegInf"
| "fmul NegInf PosInf = NegInf"
| "fmul NegInf NegInf = PosInf"

text \<open>The comparison \<open>x > y\<close>; it is false when an operand is NaN.\<close>

fun fgt :: "float64 \<Rightarrow> float64 \<Rightarrow> bool" where
  "fgt NaN y = False"
| "fgt x NaN = False"
| "fgt (Finite a) (Finite b) = (a > b)"
| "fgt PosInf PosInf = False"
| "fgt PosInf y = True"
| "fgt x PosInf = False"
| "fgt NegInf y = False"
| "fgt x NegInf = True"

text \<open>
  The constant \<^verbatim>\<open>math.MaxInt64\<close> in a \<^verbatim>\<open>float64\<close> comparison is the \<^verbatim>\<open>float64\<close>
  nearest to \<open>2 ^ 63 - 1\<close>.
\<close>

definition MaxInt64 :: int where
  "MaxInt64 = 2 ^ 63 - 1"

definition MaxInt64_float :: float64 where
  "MaxInt64_float = float64_of_int MaxInt64"

text \<open>
  The conversion \<^verbatim>\<open>time.Duration(backoff)\<close> of a \<^verbatim>\<open>float64\<close> to \<^verbatim>\<open>int64\<close> drops
  the fraction. Go leaves the result open when the value does not fit; the
  compiler for amd64 yields the smallest \<^verbatim>\<open>int64\<close> then, which is the value
  taken here.
\<close>

definition int64_indefinite :: int where
  "int64_indefinite = - (2 ^ 63)"

definition truncateToInt :: "rat \<Rightarrow> int" where
  "truncateToInt v = (if v \<ge> 0 then \<lfloor>v\<rfloor> else \<lceil>v\<rceil>)"

fun int64_of_float64 :: "float64 \<Rightarrow> int" where
  "int64_of_float64 (Finite v) =
     (if - (2 ^ 63) \<le> truncateToInt v \<and> truncateToInt v < 2 ^ 63 then truncateToInt v else int64_indefinite)"
| "int64_of_float64 x = int64_indefinite"

section \<open>Rate limiters (util/workqueue/default\_rate\_limiters.go)\<close>

text \<open>
  A duration is its number of nanoseconds. The failure count of an item is a
  Go \<^verbatim>\<open>int\<close>, of 64 bits on the 64-bit targets taken here: adding one to the
  greatest \<^verbatim>\<open>int\<close> wraps around to the smallest. The mutex of the limiter is
  not modelled: every method runs under it.
\<close>

definition intBits :: nat where
  "intBits = 64"

definition wrapInt :: "int \<Rightarrow> int" where
  "wrapInt n = (n + 2 ^ (intBits - 1)) mod 2 ^ intBits - 2 ^ (intBits - 1)"

definition ms :: "int \<Rightarrow> int" where
  "ms n = n * 1000000"

record 'a ItemExponentialFailureRateLimiter =
  failures :: "'a \<rightharpoonup> int"
  baseDelay :: int
  maxDelay :: int

definition NewItemExponentialFailureRateLimiter ::
  "int \<Rightarrow> int \<Rightarrow> 'a ItemExponentialFailureRateLimiter" where
  "NewItemExponentialFailureRateLimiter b m =
     \<lparr>failures = Map.empty, baseDelay = b, maxDelay = m\<rparr>"

text \<open>Reading the map of failures at an item without an entry gives 0.\<close>

definition failuresAt :: "'a ItemExponentialFailureRateLimiter \<Rightarrow> 'a \<Rightarrow> int" where
  "failuresAt r item = (case failures r item of None \<Rightarrow> 0 | Some n \<Rightarrow> n)"

definition expWhen ::
  "'a ItemExponentialFailureRateLimiter \<Rightarrow> 'a \<Rightarrow> int \<times> 'a ItemExponentialFailureRateLimiter" where
  "expWhen r item =
     (let e = failuresAt r item;
          r1 = r\<lparr>failures := (failures r)(item \<mapsto> wrapInt (failuresAt r item + 1))\<rparr>;
          backoff = fmul (float64_of_int (baseDelay r)) (pow2 e)
      in if fgt backoff MaxInt64_float then (maxDelay r, r1)
         else
           (let calculated = int64_of_float64 backoff
            in if calculated > maxDelay r then (maxDelay r, r1)
               else (calculated, r1)))"

definition expNumRequeues ::
  "'a ItemExponentialFailureRateLimiter \<Rightarrow> 'a \<Rightarrow> int \<times> 'a ItemExponentialFailureRateLimiter" where
  "expNumRequeues r item = (failuresAt r item, r)"

definition expForget ::
  "'a ItemExponentialFailureRateLimiter \<Rightarrow> 'a \<Rightarrow> 'a ItemExponentialFailureRateLimiter" where
  "expForget r item = r\<lparr>failures := (failures r)(item := None)\<rparr>"




text \<open>\<open>n\<close> calls of \<^verbatim>\<open>When\<close> for one item in a row, with their results in order.\<close>

fun expWhens ::
  "nat \<Rightarrow> 'a ItemExponentialFailureRateLimiter \<Rightarrow> 'a \<Rightarrow> int list \<times> 'a ItemExponentialFailureRateLimiter" where
  "expWhens 0 r item = ([], r)"
| "expWhens (Suc n) r item =
     (let (d, r1) = expWhen r item;
          (ds, r2) = expWhens n r1 item
      in (d # ds, r2))"

text \<open>
  The \<^verbatim>\<open>RateLimiter\<close> interface, for limiters whose state has type \<open>'s\<close>, and a
  limiter as a pair of its methods and its state. \<^verbatim>\<open>MaxOfRateLimiter\<close> holds a
  list of limiters, each with a state of its own.
\<close>

record ('a, 's) RateLimiter =
  When :: "'a \<Rightarrow> 's \<Rightarrow> int \<times> 's"
  NumRequeues :: "'a \<Rightarrow> 's \<Rightarrow> int \<times> 's"
  Forget :: "'a \<Rightarrow> 's \<Rightarrow> 's"

definition itemExponential ::
  "('a, 'a ItemExponentialFailureRateLimiter) RateLimiter" where
  "itemExponential =
     \<lparr>When = (\<lambda>item r. expWhen r item),
      NumRequeues = (\<lambda>item r. expNumRequeues r item),
      Forget = (\<lambda>item r. expForget r item)\<rparr>"

record ('a, 's) MaxOfRateLimiter =
  limiters :: "(('a, 's) RateLimiter \<times> 's) list"

fun maxOfWhenLoop ::
  "(('a, 's) RateLimiter \<times> 's) list \<Rightarrow> 'a \<Rightarrow> int \<Rightarrow> int \<times> (('a, 's) RateLimiter \<times> 's) list" where
  "maxOfWhenLoop [] item ret = (ret, [])"
| "maxOfWhenLoop ((limiter, s) # rest) item ret =
     (let (curr, s1) = When limiter item s;
          (ret1, rest1) = maxOfWhenLoop rest item (if curr > ret then curr else ret)
      in (ret1, (limiter, s1) # rest1))"

definition maxOfWhen ::
  "('a, 's) MaxOfRateLimiter \<Rightarrow> 'a \<Rightarrow> int \<times> ('a, 's) MaxOfRateLimiter" where
  "maxOfWhen r item =
     (let (ret, ls) = maxOfWhenLoop (limiters r) item 0 in (ret, r\<lparr>limiters := ls\<rparr>))"

fun maxOfNumRequeuesLoop ::
  "(('a, 's) RateLimiter \<times> 's) list \<Rightarrow> 'a \<Rightarrow> int \<Rightarrow> int \<times> (('a, 's) RateLimiter \<times> 's) list" where
  "maxOfNumRequeuesLoop [] item ret = (ret, [])"
| "maxOfNumRequeuesLoop ((limiter, s) # rest) item ret =
     (let (curr, s1) = NumRequeues limiter item s;
          (ret1, rest1) = maxOfNumRequeuesLoop rest item (if curr > ret then curr else ret)
      in (ret1, (limiter, s1) # rest1))"

definition maxOfNumRequeues ::
  "('a, 's) MaxOfRateLimiter \<Rightarrow> 'a \<Rightarrow> int \<times> ('a, 's) MaxOfRateLimiter" where
  "maxOfNumRequeues r item =
     (let (ret, ls) = maxOfNumRequeuesLoop (limiters r) item 0 in (ret, r\<lparr>limiters := ls\<rparr>))"

fun maxOfForgetLoop ::
  "(('a, 's) RateLimiter \<times> 's) list \<Rightarrow> 'a \<Rightarrow> (('a, 's) RateLimiter \<times> 's) list" where
  "maxOfForgetLoop [] item = []"
| "maxOfForgetLoop ((limiter, s) # rest) item =
     (limiter, Forget limiter item s) # maxOfForgetLoop rest item"

definition maxOfForget :: "('a, 's) MaxOfRateLimiter \<Rightarrow> 'a \<Rightarrow> ('a, 's) MaxOfRateLimiter" where
  "maxOfForget r item = r\<lparr>limiters := maxOfForgetLoop (limiters r) item\<rparr>"

definition NewMaxOfRateLimiter ::
  "(('a, 's) RateLimiter \<times> 's) list \<Rightarrow> ('a, 's) MaxOfRateLimiter" where
  "NewMaxOfRateLimiter ls = \<lparr>limiters = ls\<rparr>"


text \<open>
  The delay that \<^verbatim>\<open>When\<close> computes from the two delays of the limiter and the
  failure count of the item; \<open>expWhen_eq\<close> below shows that \<^verbatim>\<open>When\<close> returns it.
\<close>

definition backoffAt :: "int \<Rightarrow> int \<Rightarrow> int \<Rightarrow> int" where
  "backoffAt b m e =
     (let backoff = fmul (float64_of_int b) (pow2 e)
      in if fgt backoff MaxInt64_float then m
         else (let calculated = int64_of_float64 backoff
               in if calculated > m then m else calculated))"

text \<open>The results of the children of a \<^verbatim>\<open>MaxOfRateLimiter\<close>, in the order of the list.\<close>

definition whenResults :: "('a, 's) MaxOfRateLimiter \<Rightarrow> 'a \<Rightarrow> int list" where
  "whenResults r item = map (\<lambda>(limiter, s). fst (When limiter item s)) (limiters r)"

definition numRequeuesResults :: "('a, 's) MaxOfRateLimiter \<Rightarrow> 'a \<Rightarrow> int list" where
  "numRequeuesResults r item = map (\<lambda>(limiter, s). fst (NumRequeues limiter item s)) (limiters r)"

text \<open>Two compositions of exponential limiters, for the examples.\<close>

definition twoExponentials ::
  "(string, string ItemExponentialFailureRateLimiter) MaxOfRateLimiter" where
  "twoExponentials =
     NewMaxOfRateLimiter
       [(itemExponential, NewItemExponentialFailureRateLimiter (ms 10) (ms 40)),
        (itemExponential, NewItemExponentialFailureRateLimiter (ms 5) (ms 1000))]"

definition negativeExponential ::
  "(string, string ItemExponentialFailureRateLimiter) MaxOfRateLimiter" where
  "negativeExponential =
     NewMaxOfRateLimiter [(itemExponential, NewItemExponentialFailureRateLimiter (- 1) 10)]"

section \<open>The work queue (util/workqueue/queue.go)\<close>

text \<open>
  The queue keeps the order of the items to work on, the set of dirty items
  and the set of items being processed. An item is any value that can be the
  key of a Go map. The mutex is not modelled (every method runs under it), nor
  are the metrics, which do not touch the three collections.
\<close>

record 'a Type =
  queue :: "'a list"
  dirty :: "'a set"
  processing :: "'a set"
  shuttingDown :: bool



definition wqLen :: "'a Type \<Rightarrow> int" where
  "wqLen q = int (length (queue q))"




definition wqShuttingDown :: "'a Type \<Rightarrow> bool" where
  "wqShuttingDown q = shuttingDown q"






section \<open>Sequences of store operations and the index view\<close>

text \<open>
  A sequence of mutating calls on one store; it ends at the first panic, as
  the Go program does.
\<close>

datatype 'o store_call =
  CallStoreAdd string "'o object"
| CallStoreUpdate string "'o object"
| CallStoreDelete string
| CallStoreReplace "(string, 'o object) alist"

fun tsCall :: "'o threadSafeMap \<Rightarrow> 'o store_call \<Rightarrow> panic + 'o threadSafeMap" where
  "tsCall c (CallStoreAdd key obj) = tsAdd c key obj"
| "tsCall c (CallStoreUpdate key obj) = tsUpdate c key obj"
| "tsCall c (CallStoreDelete key) = tsDelete c key"
| "tsCall c (CallStoreReplace newItems) = tsReplace c newItems"

fun tsCalls :: "'o threadSafeMap \<Rightarrow> 'o store_call list \<Rightarrow> panic + 'o threadSafeMap" where
  "tsCalls c [] = Inr c"
| "tsCalls c (call # rest) =
     (case tsCall c call of Inl p \<Rightarrow> Inl p | Inr c1 \<Rightarrow> tsCalls c1 rest)"

text \<open>
  \<^verbatim>\<open>indices[n][v]\<close> as Go reads it: a missing index or a missing bucket reads as
  a set without members.
\<close>

definition bucketOf :: "Indices \<Rightarrow> string \<Rightarrow> string \<Rightarrow> string set" where
  "bucketOf ind n v =
     (case ind n of
        None \<Rightarrow> {}
      | Some index \<Rightarrow> (case index v of None \<Rightarrow> {} | Some set0 \<Rightarrow> set0))"

definition bucket :: "'o threadSafeMap \<Rightarrow> string \<Rightarrow> string \<Rightarrow> string set" where
  "bucket c n v = bucketOf (indices c) n v"

text \<open>
  The key \<open>k\<close> is present in the items and \<open>v\<close> is among the values that the
  index function returns for the object stored under \<open>k\<close>.
\<close>

definition indexedUnder ::
  "'o IndexFunc \<Rightarrow> (string \<rightharpoonup> 'o object) \<Rightarrow> string \<Rightarrow> string \<Rightarrow> bool" where
  "indexedUnder f its k v = (\<exists>obj vs. its k = Some obj \<and> f obj = Inr vs \<and> v \<in> set vs)"

text \<open>A call that stores no nil object.\<close>

fun storesNoNil :: "'o store_call \<Rightarrow> bool" where
  "storesNoNil (CallStoreAdd key obj) = (obj \<noteq> nil)"
| "storesNoNil (CallStoreUpdate key obj) = (obj \<noteq> nil)"
| "storesNoNil (CallStoreDelete key) = True"
| "storesNoNil (CallStoreReplace newItems) = (nil \<notin> snd ` set (DAList.impl_of newItems))"

text \<open>
  The consistency of the indices with the items, for a list of indexers: the
  buckets of every registered index hold the keys of the objects indexed under
  the value of the bucket, and no bucket is empty.
\<close>

definition consistent ::
  "(string \<times> 'o IndexFunc) list \<Rightarrow> (string \<rightharpoonup> 'o object) \<Rightarrow> Indices \<Rightarrow> bool" where
  "consistent l its ind =
     ((\<forall>n f v k. (n, f) \<in> set l \<longrightarrow> (k \<in> bucketOf ind n v) = indexedUnder f its k v)
      \<and> (\<forall>n index v. ind n = Some index \<longrightarrow> index v \<noteq> Some {}))"

text \<open>An index function for the examples: an object is indexed under its printed form.\<close>

definition byLabel :: "string IndexFunc" where
  "byLabel obj = (case obj of nil \<Rightarrow> Inr [''<nil>''] | Obj s \<Rightarrow> Inr [s])"

definition labelIndexers :: "string Indexers" where
  "labelIndexers = DAList.update ''byLabel'' byLabel DAList.empty"

text \<open>The bucket of a value in one index; a missing bucket reads as a set without members.\<close>

definition bucketI :: "Index \<Rightarrow> string \<Rightarrow> string set" where
  "bucketI index v = (case index v of None \<Rightarrow> {} | Some set0 \<Rightarrow> set0)"

text \<open>
  The invariant of the store: the indices are consistent with the items for the
  indexers of the store, and no stored object is nil.
\<close>

definition storeInv :: "'o threadSafeMap \<Rightarrow> bool" where
  "storeInv c =
     (consistent (DAList.impl_of (indexers c)) (items c) (indices c)
      \<and> (\<forall>k. items c k \<noteq> Some nil))"

text \<open>Sequences of calls on a store, for the examples.\<close>

definition labelCalls :: "string store_call list" where
  "labelCalls =
     [CallStoreAdd ''k1'' (Obj ''a''), CallStoreAdd ''k2'' (Obj ''a''),
      CallStoreUpdate ''k1'' (Obj ''b''), CallStoreDelete ''k2'']"

definition replaceCalls :: "string store_call list" where
  "replaceCalls =
     [CallStoreAdd ''k1'' (Obj ''a''),
      CallStoreReplace
        (DAList.update ''k2'' (Obj ''b'') (DAList.update ''k3'' (Obj ''b'') DAList.empty))]"

definition nilCalls :: "string store_call list" where
  "nilCalls = [CallStoreAdd ''k'' nil, CallStoreAdd ''k'' (Obj ''b'')]"

section \<open>Key-function failures in the cache\<close>

text \<open>
  C9. When the key function fails on an object, \<^verbatim>\<open>Add\<close>, \<^verbatim>\<open>Update\<close> and
  \<^verbatim>\<open>Delete\<close> of the cache each return a \<^verbatim>\<open>KeyError\<close> that carries the object and
  the cause, and the cache, with the items and indices of its store, is the one
  before the call.
\<close>

theorem cache_key_failure_atomic:
  assumes "keyFunc c obj = Inl err"
  shows "cacheAdd c obj = Inr (Some (KeyError obj err), c)
       \<and> cacheUpdate c obj = Inr (Some (KeyError obj err), c)
       \<and> cacheDelete c obj = Inr (Some (KeyError obj err), c)"
  using assms by (simp add: cacheAdd_def cacheUpdate_def cacheDelete_def)

theorem cache_key_failure_atomic_witness:
  "keyFunc oneItemCache nil = Inl (Error ''object has no meta'')
   \<and> cacheAdd oneItemCache nil = Inr (Some (KeyError nil (Error ''object has no meta'')), oneItemCache)
   \<and> cacheUpdate oneItemCache nil = Inr (Some (KeyError nil (Error ''object has no meta'')), oneItemCache)
   \<and> cacheDelete oneItemCache nil = Inr (Some (KeyError nil (Error ''object has no meta'')), oneItemCache)"
proof -
  have h: "keyFunc oneItemCache nil = Inl (Error ''object has no meta'')"
    by (simp add: oneItemCache_def nameKey_def)
  show ?thesis using h cache_key_failure_atomic [OF h] by simp
qed

section \<open>Key-function failures during Replace\<close>

lemma replaceKeys_stops:
  assumes "kf bad = Inl err" and "\<forall>x \<in> set pre. \<exists>k. kf x = Inr k"
  shows "replaceKeys kf (pre @ bad # post) acc = Inl (KeyError bad err)"
  using assms by (induction pre arbitrary: acc) auto

text \<open>
  C4, as the code has it. When the key function fails on an item of the list,
  \<^verbatim>\<open>Replace\<close> of the cache returns the \<^verbatim>\<open>KeyError\<close> of the first such item,
  with the item and the cause, and the whole replace is abandoned: the store is
  left as it was, and no item of the list is stored.
\<close>

theorem cache_replace_key_failure:
  assumes "keyFunc c bad = Inl err"
    and "\<forall>x \<in> set pre. \<exists>k. keyFunc c x = Inr k"
  shows "cacheReplace c (pre @ bad # post) = Inr (Some (KeyError bad err), c)"
  using replaceKeys_stops [OF assms] by (simp add: cacheReplace_def)

theorem cache_replace_key_failure_witness:
  "keyFunc oneItemCache nil = Inl (Error ''object has no meta'')
   \<and> keyFunc oneItemCache (Obj ''a'') = Inr ''a''
   \<and> cacheReplace oneItemCache ([Obj ''a''] @ nil # [Obj ''b''])
       = Inr (Some (KeyError nil (Error ''object has no meta'')), oneItemCache)"
proof -
  have h1: "keyFunc oneItemCache nil = Inl (Error ''object has no meta'')"
    by (simp add: oneItemCache_def nameKey_def)
  have h2: "\<forall>x \<in> set [Obj ''a'']. \<exists>k. keyFunc oneItemCache x = Inr k"
    by (simp add: oneItemCache_def nameKey_def)
  have h3: "keyFunc oneItemCache (Obj ''a'') = Inr ''a''"
    by (simp add: oneItemCache_def nameKey_def)
  show ?thesis using h1 h3 cache_replace_key_failure [OF h1 h2, of "[Obj ''b'']"] by simp
qed

text \<open>
  The claim as written fails: replacing the content of a cache that holds
  \<open>old\<close> by the list \<open>a\<close>, nil, \<open>b\<close>, where the key function fails on nil, returns
  the error and stores neither \<open>a\<close> nor \<open>b\<close>; \<open>old\<close> is still there.
\<close>

theorem cache_replace_counterexample:
  "cacheReplace oneItemCache [Obj ''a'', nil, Obj ''b'']
     = Inr (Some (KeyError nil (Error ''object has no meta'')), oneItemCache)
   \<and> tsGet (cacheStorage oneItemCache) ''a'' = (nil, False)
   \<and> tsGet (cacheStorage oneItemCache) ''b'' = (nil, False)
   \<and> tsGet (cacheStorage oneItemCache) ''old'' = (Obj ''old'', True)"
  by (simp add: cacheReplace_def oneItemCache_def nameKey_def tsGet_def)

section \<open>The filtering handler\<close>

text \<open>
  C5. For every filter and every wrapped handler, \<^verbatim>\<open>OnUpdate\<close> of the
  filtering handler calls \<^verbatim>\<open>OnUpdate(old, new)\<close> of the wrapped handler when the
  filter passes both objects, \<^verbatim>\<open>OnAdd(new)\<close> when it passes only the new one,
  \<^verbatim>\<open>OnDelete(old)\<close> when it passes only the old one, and calls nothing (the
  state of the handler stays as it is) when it passes neither.
\<close>

theorem filtering_OnUpdate_transitions:
  "(FilterFunc r newObj \<and> FilterFunc r oldObj \<longrightarrow>
      filteringOnUpdate r oldObj newObj s = OnUpdate (Handler r) oldObj newObj s)
   \<and> (FilterFunc r newObj \<and> \<not> FilterFunc r oldObj \<longrightarrow>
      filteringOnUpdate r oldObj newObj s = OnAdd (Handler r) newObj s)
   \<and> (\<not> FilterFunc r newObj \<and> FilterFunc r oldObj \<longrightarrow>
      filteringOnUpdate r oldObj newObj s = OnDelete (Handler r) oldObj s)
   \<and> (\<not> FilterFunc r newObj \<and> \<not> FilterFunc r oldObj \<longrightarrow>
      filteringOnUpdate r oldObj newObj s = s)"
  by (simp add: filteringOnUpdate_def)

theorem filtering_OnUpdate_transitions_witness:
  "filteringOnUpdate \<lparr>FilterFunc = labelIsFoo, Handler = recorder\<rparr> (Obj ''foo'') (Obj ''foo'') []
     = [Updated (Obj ''foo'') (Obj ''foo'')]
   \<and> filteringOnUpdate \<lparr>FilterFunc = labelIsFoo, Handler = recorder\<rparr> (Obj ''bar'') (Obj ''foo'') []
     = [Added (Obj ''foo'')]
   \<and> filteringOnUpdate \<lparr>FilterFunc = labelIsFoo, Handler = recorder\<rparr> (Obj ''foo'') (Obj ''bar'') []
     = [Deleted (Obj ''foo'')]
   \<and> filteringOnUpdate \<lparr>FilterFunc = labelIsFoo, Handler = recorder\<rparr> (Obj ''bar'') (Obj ''baz'') []
     = []"
  using
    filtering_OnUpdate_transitions
      [of "\<lparr>FilterFunc = labelIsFoo, Handler = recorder\<rparr>" "Obj ''foo''" "Obj ''foo''" "[]"]
    filtering_OnUpdate_transitions
      [of "\<lparr>FilterFunc = labelIsFoo, Handler = recorder\<rparr>" "Obj ''foo''" "Obj ''bar''" "[]"]
    filtering_OnUpdate_transitions
      [of "\<lparr>FilterFunc = labelIsFoo, Handler = recorder\<rparr>" "Obj ''bar''" "Obj ''foo''" "[]"]
    filtering_OnUpdate_transitions
      [of "\<lparr>FilterFunc = labelIsFoo, Handler = recorder\<rparr>" "Obj ''baz''" "Obj ''bar''" "[]"]
  by (simp add: labelIsFoo_def recorder_def)

section \<open>Keys and their decoding\<close>

lemma splitOn_no_sep: "sep \<notin> set xs \<Longrightarrow> splitOn sep xs = [xs]"
  by (induction xs) auto

lemma splitOn_append:
  "sep \<notin> set xs \<Longrightarrow> splitOn sep (xs @ sep # ys) = xs # splitOn sep ys"
  by (induction xs) auto

lemma length_splitOn: "length (splitOn sep xs) = Suc (count_list xs sep)"
  by (induction xs) (auto split: list.splits)

text \<open>
  C8. \<^verbatim>\<open>MetaNamespaceKeyFunc\<close> gives \<open>namespace/name\<close> for an object with a
  non-empty namespace and \<open>name\<close> for one with an empty namespace. For every
  object whose namespace and name hold no \<open>/\<close>, \<^verbatim>\<open>SplitMetaNamespaceKey\<close> of
  its key returns its namespace and name, without error. On every string with
  two or more \<open>/\<close>, \<^verbatim>\<open>SplitMetaNamespaceKey\<close> returns an error.
\<close>

theorem key_round_trip:
  "(ns \<noteq> [] \<longrightarrow> MetaNamespaceKeyFunc (Obj (WithMeta ns n)) = Inr (ns @ ''/'' @ n))
   \<and> (ns = [] \<longrightarrow> MetaNamespaceKeyFunc (Obj (WithMeta ns n)) = Inr n)
   \<and> (CHR ''/'' \<notin> set ns \<and> CHR ''/'' \<notin> set n \<longrightarrow>
        (\<exists>key. MetaNamespaceKeyFunc (Obj (WithMeta ns n)) = Inr key
           \<and> SplitMetaNamespaceKey key = Inr (ns, n)))
   \<and> (2 \<le> count_list s CHR ''/'' \<longrightarrow> (\<exists>err. SplitMetaNamespaceKey s = Inl err))"
proof -
  have a: "ns \<noteq> [] \<longrightarrow> MetaNamespaceKeyFunc (Obj (WithMeta ns n)) = Inr (ns @ ''/'' @ n)"
    by (simp add: MetaNamespaceKeyFunc_def)
  have b: "ns = [] \<longrightarrow> MetaNamespaceKeyFunc (Obj (WithMeta ns n)) = Inr n"
    by (simp add: MetaNamespaceKeyFunc_def)
  have c: "CHR ''/'' \<notin> set ns \<and> CHR ''/'' \<notin> set n \<longrightarrow>
        (\<exists>key. MetaNamespaceKeyFunc (Obj (WithMeta ns n)) = Inr key
           \<and> SplitMetaNamespaceKey key = Inr (ns, n))"
  proof
    assume h: "CHR ''/'' \<notin> set ns \<and> CHR ''/'' \<notin> set n"
    show "\<exists>key. MetaNamespaceKeyFunc (Obj (WithMeta ns n)) = Inr key
           \<and> SplitMetaNamespaceKey key = Inr (ns, n)"
    proof (cases "ns = []")
      case True
      with h show ?thesis
        by (simp add: MetaNamespaceKeyFunc_def SplitMetaNamespaceKey_def splitOn_no_sep)
    next
      case False
      with h have "splitOn CHR ''/'' (ns @ CHR ''/'' # n) = [ns, n]"
        by (simp add: splitOn_append splitOn_no_sep)
      with False show ?thesis
        by (simp add: MetaNamespaceKeyFunc_def SplitMetaNamespaceKey_def)
    qed
  qed
  have d: "2 \<le> count_list s CHR ''/'' \<longrightarrow> (\<exists>err. SplitMetaNamespaceKey s = Inl err)"
  proof
    assume "2 \<le> count_list s CHR ''/''"
    then have "3 \<le> length (splitOn CHR ''/'' s)"
      by (simp add: length_splitOn)
    then show "\<exists>err. SplitMetaNamespaceKey s = Inl err"
      by (auto simp: SplitMetaNamespaceKey_def split: list.splits)
  qed
  from a b c d show ?thesis by blast
qed

theorem key_round_trip_witness:
  "MetaNamespaceKeyFunc (Obj (WithMeta ''kube-system'' ''dns'')) = Inr ''kube-system/dns''
   \<and> MetaNamespaceKeyFunc (Obj (WithMeta [] ''node1'')) = Inr ''node1''
   \<and> SplitMetaNamespaceKey ''kube-system/dns'' = Inr (''kube-system'', ''dns'')
   \<and> SplitMetaNamespaceKey ''node1'' = Inr ([], ''node1'')
   \<and> SplitMetaNamespaceKey ''a/b/c'' = Inl (Error ''unexpected key format'')"
  using key_round_trip [of "''kube-system''" "''dns''" "''a/b/c''"]
    key_round_trip [of "[]" "''node1''" "''a/b/c''"]
  by (simp add: MetaNamespaceKeyFunc_def SplitMetaNamespaceKey_def)

section \<open>The exponential failure limiter\<close>

lemma wrapInt_add: "wrapInt (wrapInt a + b) = wrapInt (a + b)"
proof -
  have "(a + 2 ^ (intBits - 1)) mod 2 ^ intBits - 2 ^ (intBits - 1) + b + 2 ^ (intBits - 1)
      = (a + 2 ^ (intBits - 1)) mod 2 ^ intBits + b"
    by simp
  then have "wrapInt (wrapInt a + b)
      = ((a + 2 ^ (intBits - 1)) mod 2 ^ intBits + b) mod 2 ^ intBits - 2 ^ (intBits - 1)"
    by (simp add: wrapInt_def)
  also have "\<dots> = (a + 2 ^ (intBits - 1) + b) mod 2 ^ intBits - 2 ^ (intBits - 1)"
    by (simp add: mod_add_left_eq)
  also have "\<dots> = wrapInt (a + b)"
    by (simp add: wrapInt_def ac_simps)
  finally show ?thesis .
qed

lemma wrapInt_Suc: "wrapInt (wrapInt (a + 1) + int k) = wrapInt (a + int (Suc k))"
  using wrapInt_add [of "a + 1" "int k"] by (simp add: ac_simps)


lemma wrapInt_values:
  "wrapInt 0 = 0" "wrapInt 1 = 1" "wrapInt 2 = 2" "wrapInt 3 = 3" "wrapInt 4 = 4"
  "wrapInt 5 = 5" "wrapInt 63 = 63"
  by (simp_all add: wrapInt_def intBits_def)

lemma wrapInt_wrapInt: "wrapInt (wrapInt n) = wrapInt n"
  using wrapInt_add [of n 0] by simp

lemma failuresAt_expWhen:
  "failuresAt (snd (expWhen r y)) x
     = (if y = x then wrapInt (failuresAt r x + 1) else failuresAt r x)"
  by (simp add: expWhen_def failuresAt_def Let_def)

lemma failuresAt_expForget:
  "failuresAt (expForget r y) x = (if y = x then 0 else failuresAt r x)"
  by (simp add: expForget_def failuresAt_def)


lemma failuresAt_New: "failuresAt (NewItemExponentialFailureRateLimiter b m) x = 0"
  by (simp add: NewItemExponentialFailureRateLimiter_def failuresAt_def)







lemma roundHalfEven_of_int: "roundHalfEven (of_int z) = z"
  by (simp add: roundHalfEven_def)

lemma roundHalfEven_up: "roundHalfEven (9223372036854775807 / 1024) = 9007199254740992"
proof -
  have "\<lfloor>(9223372036854775807::rat) / 1024\<rfloor> = 9007199254740991"
    by (rule floor_unique) simp_all
  then show ?thesis
    by (simp add: roundHalfEven_def)
qed

lemma roundHalfEven_tie: "roundHalfEven (9007199254740993 / 2) = 4503599627370496"
proof -
  have "\<lfloor>(9007199254740993::rat) / 2\<rfloor> = 4503599627370496"
    by (rule floor_unique) simp_all
  then show ?thesis
    by (simp add: roundHalfEven_def)
qed

lemma roundMagnitude_of_int:
  assumes "0 \<le> z" "z \<le> 2 ^ 53"
  shows "roundMagnitude (of_int z) = of_int z"
proof (cases "z = 2 ^ 53")
  case True
  have "roundMagnitude (2 ^ 53) = 2 ^ 53"
    by (simp add: roundMagnitude_def excessBits.simps Let_def roundHalfEven_def)
  with True show ?thesis by simp
next
  case False
  with assms have small: "z < 2 ^ 53" by simp
  define j where "j = missingBits (of_int z) 0"
  have "(of_int z :: rat) * 2 ^ j = of_int (z * 2 ^ j)"
    by simp
  then have "roundHalfEven (of_int z * 2 ^ j) = z * 2 ^ j"
    by (simp only: roundHalfEven_of_int)
  then have "(of_int (roundHalfEven (of_int z * 2 ^ j)) :: rat) / 2 ^ j = of_int z"
    by simp
  moreover have "\<not> (of_int z :: rat) \<ge> 2 ^ 53"
    using small by simp
  ultimately show ?thesis
    by (simp add: roundMagnitude_def Let_def j_def)
qed

lemma roundFloat64_of_int:
  assumes "\<bar>z\<bar> \<le> 2 ^ 53"
  shows "roundFloat64 (of_int z) = Finite (of_int z)"
proof -
  have "\<bar>of_int z :: rat\<bar> = of_int \<bar>z\<bar>" by simp
  moreover have "roundMagnitude (of_int \<bar>z\<bar>) = of_int \<bar>z\<bar>"
    using assms by (intro roundMagnitude_of_int) simp_all
  moreover have "(of_int \<bar>z\<bar> :: rat) < 2 ^ 1024"
  proof -
    have "\<bar>z\<bar> < 2 ^ 1024" using assms by simp
    then show ?thesis by simp
  qed
  ultimately show ?thesis
    by (simp add: roundFloat64_def Let_def del: of_int_abs)
qed

lemma roundFloat64_numeral:
  "numeral n \<le> (2 ^ 53 :: int) \<Longrightarrow> roundFloat64 (numeral n) = Finite (numeral n)"
  using roundFloat64_of_int [of "numeral n"] by simp

lemma roundFloat64_neg_numeral:
  "numeral n \<le> (2 ^ 53 :: int) \<Longrightarrow> roundFloat64 (- numeral n) = Finite (- numeral n)"
  using roundFloat64_of_int [of "- numeral n"] by simp

lemma roundFloat64_units:
  "roundFloat64 0 = Finite 0" "roundFloat64 1 = Finite 1" "roundFloat64 (- 1) = Finite (- 1)"
  using roundFloat64_of_int [of 0] roundFloat64_of_int [of 1] roundFloat64_of_int [of "- 1"]
  by simp_all

lemma float64_of_int_exact:
  assumes "\<bar>b\<bar> \<le> 2 ^ 53"
  shows "float64_of_int b = Finite (of_int b)"
  using roundFloat64_of_int [OF assms] by (simp add: float64_of_int_def)

lemma roundFloat64_2_63: "roundFloat64 9223372036854775808 = Finite 9223372036854775808"
  by (simp add: roundFloat64_def roundMagnitude_def excessBits.simps Let_def roundHalfEven_def)

lemma MaxInt64_float_eq: "MaxInt64_float = Finite (2 ^ 63)"
  by (simp add: MaxInt64_float_def MaxInt64_def float64_of_int_def roundFloat64_def
      roundMagnitude_def excessBits.simps Let_def roundHalfEven_up)

lemma truncateToInt_of_int: "truncateToInt (of_int z) = z"
  by (simp add: truncateToInt_def)

lemma truncateToInt_values:
  "truncateToInt (numeral n) = numeral n" "truncateToInt (- numeral n) = - numeral n"
  "truncateToInt 0 = 0" "truncateToInt 1 = 1" "truncateToInt (- 1) = - 1"
  using truncateToInt_of_int [of "numeral n"] truncateToInt_of_int [of "- numeral n"]
    truncateToInt_of_int [of 0] truncateToInt_of_int [of 1] truncateToInt_of_int [of "- 1"]
  by simp_all

lemma expWhen_eq:
  "expWhen r x =
     (backoffAt (baseDelay r) (maxDelay r) (failuresAt r x),
      r\<lparr>failures := (failures r)(x \<mapsto> wrapInt (failuresAt r x + 1))\<rparr>)"
  by (simp add: expWhen_def backoffAt_def Let_def)

lemma backoffAt_first:
  assumes "\<bar>b\<bar> \<le> 2 ^ 53"
  shows "backoffAt b m 0 = min b m"
proof -
  have "fmul (float64_of_int b) (pow2 0) = Finite (of_int b)"
    using roundFloat64_of_int [OF assms]
    by (simp add: pow2_def float64_of_int_exact [OF assms])
  moreover have "b < 2 ^ 63" "- (2 ^ 63) \<le> b"
    using assms by simp_all
  ultimately show ?thesis
    by (simp add: backoffAt_def Let_def MaxInt64_float_eq truncateToInt_of_int min_def)
qed

lemma expWhen_first:
  assumes "\<bar>baseDelay r\<bar> \<le> 2 ^ 53" and "failuresAt r x = 0"
  shows "fst (expWhen r x) = min (baseDelay r) (maxDelay r)"
  using backoffAt_first [OF assms(1)] assms(2) by (simp add: expWhen_eq)

lemma expWhen_fields:
  "baseDelay (snd (expWhen r x)) = baseDelay r" "maxDelay (snd (expWhen r x)) = maxDelay r"
  by (simp_all add: expWhen_eq)

lemma expWhens_eq:
  "wrapInt (failuresAt r x) = failuresAt r x \<Longrightarrow>
   fst (expWhens n r x)
     = map (\<lambda>k. backoffAt (baseDelay r) (maxDelay r) (wrapInt (failuresAt r x + int k))) [0..<n]"
proof (induction n arbitrary: r)
  case 0
  show ?case by simp
next
  case (Suc n)
  let ?r1 = "snd (expWhen r x)"
  have f1: "failuresAt ?r1 x = wrapInt (failuresAt r x + 1)"
    by (simp add: failuresAt_expWhen)
  then have "wrapInt (failuresAt ?r1 x) = failuresAt ?r1 x"
    by (simp add: wrapInt_wrapInt)
  from Suc.IH [OF this]
  have rest: "fst (expWhens n ?r1 x)
     = map (\<lambda>k. backoffAt (baseDelay r) (maxDelay r) (wrapInt (failuresAt r x + int (Suc k))))
         [0..<n]"
    by (simp only: f1 expWhen_fields wrapInt_Suc)
  have upt: "[0..<Suc n] = 0 # map Suc [0..<n]"
    by (simp add: upt_conv_Cons map_Suc_upt del: upt_Suc)
  have "fst (expWhens (Suc n) r x) = fst (expWhen r x) # fst (expWhens n ?r1 x)"
    by (simp add: split_beta Let_def)
  also have "fst (expWhen r x)
      = backoffAt (baseDelay r) (maxDelay r) (wrapInt (failuresAt r x + int 0))"
    using Suc.prems by (simp add: expWhen_eq)
  finally show ?case
    unfolding rest upt by (simp add: o_def del: upt_Suc)
qed

lemma failuresAt_expWhens:
  "wrapInt (failuresAt r x) = failuresAt r x \<Longrightarrow>
   failuresAt (snd (expWhens n r x)) x = wrapInt (failuresAt r x + int n)"
proof (induction n arbitrary: r)
  case 0
  then show ?case by simp
next
  case (Suc n)
  let ?r1 = "snd (expWhen r x)"
  have f1: "failuresAt ?r1 x = wrapInt (failuresAt r x + 1)"
    by (simp add: failuresAt_expWhen)
  then have "wrapInt (failuresAt ?r1 x) = failuresAt ?r1 x"
    by (simp add: wrapInt_wrapInt)
  from Suc.IH [OF this]
  have "failuresAt (snd (expWhens n ?r1 x)) x = wrapInt (failuresAt r x + int (Suc n))"
    by (simp only: f1 wrapInt_Suc)
  then show ?case
    by (simp add: split_beta Let_def)
qed

lemma expWhens_fields:
  "baseDelay (snd (expWhens n r x)) = baseDelay r" "maxDelay (snd (expWhens n r x)) = maxDelay r"
  by (induction n arbitrary: r) (simp_all add: split_beta expWhen_fields)

lemma backoffAt_10_40:
  "backoffAt (ms 10) (ms 40) 0 = ms 10" "backoffAt (ms 10) (ms 40) 1 = ms 20"
  "backoffAt (ms 10) (ms 40) 2 = ms 40" "backoffAt (ms 10) (ms 40) 3 = ms 40"
  "backoffAt (ms 10) (ms 40) 4 = ms 40"
  by (simp_all add: backoffAt_def ms_def float64_of_int_def pow2_def roundFloat64_numeral
      MaxInt64_float_eq truncateToInt_values Let_def)

lemma backoffAt_small:
  "backoffAt (ms 10) (ms 40) 0 = ms 10" "backoffAt (ms 5) (ms 1000) 0 = ms 5"
  "backoffAt (- 1) 10 0 = - 1"
  by (simp_all add: backoffAt_def ms_def float64_of_int_def pow2_def roundFloat64_numeral
      roundFloat64_units MaxInt64_float_eq truncateToInt_values Let_def)

lemma New_fields:
  "baseDelay (NewItemExponentialFailureRateLimiter b m) = b"
  "maxDelay (NewItemExponentialFailureRateLimiter b m) = m"
  by (simp_all add: NewItemExponentialFailureRateLimiter_def)

lemma upt5: "[0..<5] = [0, 1, 2, 3, 4]"
  by (simp add: upt_rec)

lemma expWhens_5_scenario:
  "fst (expWhens 5 (NewItemExponentialFailureRateLimiter (ms 10) (ms 40)) ''x'')
     = [ms 10, ms 20, ms 40, ms 40, ms 40]"
  by (simp add: expWhens_eq upt5 failuresAt_New backoffAt_10_40 New_fields wrapInt_values
      del: upt_Suc)

lemma backoffAt_1_63: "backoffAt 1 m 63 = (if - (2 ^ 63) > m then m else - (2 ^ 63))"
  by (simp add: backoffAt_def float64_of_int_def roundFloat64_units pow2_def roundFloat64_2_63
      MaxInt64_float_eq truncateToInt_values int64_indefinite_def Let_def)

lemma expForget_fields:
  "baseDelay (expForget r x) = baseDelay r" "maxDelay (expForget r x) = maxDelay r"
  by (simp_all add: expForget_def)

text \<open>
  C7, as the code has it. For the limiter with base delay 10ms and maximal
  delay 40ms, five calls of \<^verbatim>\<open>When\<close> for \<open>x\<close> return 10ms, 20ms, 40ms, 40ms, 40ms,
  and after \<^verbatim>\<open>Forget\<close> the next call returns 10ms. For every limiter and every
  item, \<^verbatim>\<open>When\<close> after \<^verbatim>\<open>Forget\<close> returns what the first \<^verbatim>\<open>When\<close> on a new
  limiter with the same delays returns; for a base delay of at most \<open>2 ^ 53\<close>
  nanoseconds in absolute value that is the smaller one of the base delay and
  the maximal delay, hence the base delay when it does not exceed the maximal
  delay.
\<close>

theorem exp_Forget_resets:
  "fst (expWhens 5 (NewItemExponentialFailureRateLimiter (ms 10) (ms 40)) ''x'')
     = [ms 10, ms 20, ms 40, ms 40, ms 40]
   \<and> fst (expWhen
        (expForget (snd (expWhens 5 (NewItemExponentialFailureRateLimiter (ms 10) (ms 40)) ''x''))
           ''x'') ''x'') = ms 10
   \<and> fst (expWhen (expForget r x) x)
       = fst (expWhen (NewItemExponentialFailureRateLimiter (baseDelay r) (maxDelay r)) x)
   \<and> (\<bar>baseDelay r\<bar> \<le> 2 ^ 53 \<longrightarrow>
        fst (expWhen (expForget r x) x) = min (baseDelay r) (maxDelay r))"
proof -
  have same: "fst (expWhen (expForget r' y) y)
       = fst (expWhen (NewItemExponentialFailureRateLimiter (baseDelay r') (maxDelay r')) y)"
    for r' :: "'b ItemExponentialFailureRateLimiter" and y
    by (simp add: expWhen_eq expForget_fields failuresAt_expForget failuresAt_New New_fields)
  have first: "\<bar>baseDelay r'\<bar> \<le> 2 ^ 53 \<Longrightarrow>
      fst (expWhen (expForget r' y) y) = min (baseDelay r') (maxDelay r')"
    for r' :: "'b ItemExponentialFailureRateLimiter" and y
    using expWhen_first [of "expForget r' y" y]
    by (simp add: expForget_fields failuresAt_expForget)
  have after: "fst (expWhen
        (expForget (snd (expWhens 5 (NewItemExponentialFailureRateLimiter (ms 10) (ms 40)) ''x''))
           ''x'') ''x'') = ms 10"
    by (simp add: expWhen_eq expForget_fields failuresAt_expForget backoffAt_10_40
        expWhens_fields New_fields)
  from expWhens_5_scenario after same [of r x] first [of r x] show ?thesis
    by blast
qed

theorem exp_Forget_resets_witness:
  "\<bar>baseDelay (NewItemExponentialFailureRateLimiter (ms 10) (ms 40)
        :: string ItemExponentialFailureRateLimiter)\<bar> \<le> 2 ^ 53
   \<and> fst (expWhen (expForget (snd (expWhens 3
        (NewItemExponentialFailureRateLimiter (ms 10) (ms 40)) ''x'')) ''x'') ''x'') = ms 10"
  using exp_Forget_resets
    [of "snd (expWhens 3 (NewItemExponentialFailureRateLimiter (ms 10) (ms 40)) ''x'')" "''x''"]
  by (simp add: expWhens_fields New_fields ms_def)

text \<open>
  The claim as written fails: with a base delay of 40ms above the maximal
  delay of 10ms, \<^verbatim>\<open>When\<close> after \<^verbatim>\<open>Forget\<close> returns 10ms, not the base delay;
  and a base delay of \<open>2 ^ 53 + 1\<close> nanoseconds is rounded to \<open>2 ^ 53\<close>.
\<close>

theorem exp_Forget_counterexample:
  "fst (expWhen (expForget (NewItemExponentialFailureRateLimiter (ms 40) (ms 10)) ''x'') ''x'')
     = ms 10
   \<and> baseDelay (NewItemExponentialFailureRateLimiter (ms 40) (ms 10)
        :: string ItemExponentialFailureRateLimiter) = ms 40
   \<and> ms 10 \<noteq> ms 40
   \<and> fst (expWhen (expForget (NewItemExponentialFailureRateLimiter (2 ^ 53 + 1) (2 ^ 62)) ''x'')
        ''x'') = 2 ^ 53"
proof -
  have a: "backoffAt (ms 40) (ms 10) 0 = ms 10"
    using backoffAt_first [of "ms 40" "ms 10"] by (simp add: ms_def)
  have "float64_of_int (2 ^ 53 + 1) = Finite (2 ^ 53)"
    by (simp add: float64_of_int_def roundFloat64_def roundMagnitude_def excessBits.simps
        Let_def roundHalfEven_tie)
  then have b: "backoffAt (2 ^ 53 + 1) (2 ^ 62) 0 = 2 ^ 53"
    by (simp add: backoffAt_def pow2_def roundFloat64_numeral MaxInt64_float_eq
        truncateToInt_values Let_def)
  have c: "ms 10 \<noteq> ms 40"
    by (simp add: ms_def)
  from a b c show ?thesis
    by (simp add: expWhen_eq expForget_fields failuresAt_expForget New_fields)
qed

text \<open>
  C3 at a failing input. With a base delay of 1ns and a maximal delay of 1000s,
  the 64th \<^verbatim>\<open>When\<close> for an item computes the backoff \<open>2 ^ 63\<close>, which is not
  greater than \<^verbatim>\<open>math.MaxInt64\<close> as a \<^verbatim>\<open>float64\<close>; the conversion overflows and
  the call returns the smallest \<^verbatim>\<open>int64\<close>, where the smaller one of
  \<open>1 * 2 ^ 63\<close> and the maximal delay is the maximal delay.
\<close>

theorem exp_When_overflow:
  "fst (expWhen (snd (expWhens 63 (NewItemExponentialFailureRateLimiter 1 (ms 1000000)) ''x''))
      ''x'') = - (2 ^ 63)
   \<and> min (1 * 2 ^ (64 - 1)) (ms 1000000) = ms 1000000"
  by (simp add: expWhen_eq expWhens_fields failuresAt_expWhens failuresAt_New New_fields
      wrapInt_values backoffAt_1_63 ms_def)


section \<open>The max-of limiter\<close>

lemma Max_insert_max:
  "finite A \<Longrightarrow> Max (insert (max a b) A) = Max (insert b (insert a A))"
  by (cases "A = {}") (simp_all add: max.commute max.left_commute max.assoc)

lemma maxOfWhenLoop_fst:
  "fst (maxOfWhenLoop ls item ret)
     = Max (insert ret (set (map (\<lambda>(limiter, s). fst (When limiter item s)) ls)))"
proof (induction ls arbitrary: ret)
  case Nil
  show ?case by simp
next
  case (Cons c ls)
  obtain limiter s where c: "c = (limiter, s)" by (cases c)
  have "(if fst (When limiter item s) > ret then fst (When limiter item s) else ret)
          = max (fst (When limiter item s)) ret"
    by (simp add: max_def)
  then show ?case
    using Cons [of "max (fst (When limiter item s)) ret"]
    by (simp add: c split_beta Let_def Max_insert_max del: Max_insert)
qed

lemma maxOfWhenLoop_snd:
  "snd (maxOfWhenLoop ls item ret) = map (\<lambda>(limiter, s). (limiter, snd (When limiter item s))) ls"
  by (induction ls arbitrary: ret) (auto simp: split_beta Let_def)

lemma maxOfNumRequeuesLoop_fst:
  "fst (maxOfNumRequeuesLoop ls item ret)
     = Max (insert ret (set (map (\<lambda>(limiter, s). fst (NumRequeues limiter item s)) ls)))"
proof (induction ls arbitrary: ret)
  case Nil
  show ?case by simp
next
  case (Cons c ls)
  obtain limiter s where c: "c = (limiter, s)" by (cases c)
  have "(if fst (NumRequeues limiter item s) > ret then fst (NumRequeues limiter item s) else ret)
          = max (fst (NumRequeues limiter item s)) ret"
    by (simp add: max_def)
  then show ?case
    using Cons [of "max (fst (NumRequeues limiter item s)) ret"]
    by (simp add: c split_beta Let_def Max_insert_max del: Max_insert)
qed

lemma maxOfForgetLoop_eq:
  "maxOfForgetLoop ls item = map (\<lambda>(limiter, s). (limiter, Forget limiter item s)) ls"
  by (induction ls) auto

lemma Max_insert_zero:
  assumes "finite A" "\<exists>a \<in> A. (0::int) \<le> a"
  shows "Max (insert 0 A) = Max A"
proof -
  from assms obtain a where a: "a \<in> A" "0 \<le> a" by blast
  then have "A \<noteq> {}" by blast
  moreover have "0 \<le> Max A" using a assms(1) by (meson Max_ge order_trans)
  ultimately show ?thesis using assms(1) by (simp add: max_def)
qed

text \<open>
  C6, as the code has it. For every list of limiters and every item,
  \<^verbatim>\<open>When\<close> of the max-of limiter returns the maximum of 0 and the results of
  \<^verbatim>\<open>When\<close> of the children, and leaves every child in the state after its own
  \<^verbatim>\<open>When\<close>; \<^verbatim>\<open>NumRequeues\<close> returns the maximum of 0 and the results of the
  children; \<^verbatim>\<open>Forget\<close> forwards to every child. When the result of some child
  is not negative, the maximum is the maximum of the results of the children.
\<close>

theorem maxOf_composition:
  "fst (maxOfWhen r x) = Max (insert 0 (set (whenResults r x)))
   \<and> limiters (snd (maxOfWhen r x))
       = map (\<lambda>(limiter, s). (limiter, snd (When limiter x s))) (limiters r)
   \<and> fst (maxOfNumRequeues r x) = Max (insert 0 (set (numRequeuesResults r x)))
   \<and> limiters (maxOfForget r x)
       = map (\<lambda>(limiter, s). (limiter, Forget limiter x s)) (limiters r)
   \<and> ((\<exists>d \<in> set (whenResults r x). 0 \<le> d) \<longrightarrow>
        fst (maxOfWhen r x) = Max (set (whenResults r x)))
   \<and> ((\<exists>n \<in> set (numRequeuesResults r x). 0 \<le> n) \<longrightarrow>
        fst (maxOfNumRequeues r x) = Max (set (numRequeuesResults r x)))"
proof -
  have w: "fst (maxOfWhen r x) = Max (insert 0 (set (whenResults r x)))"
    by (simp add: maxOfWhen_def split_beta maxOfWhenLoop_fst whenResults_def)
  have ws: "limiters (snd (maxOfWhen r x))
       = map (\<lambda>(limiter, s). (limiter, snd (When limiter x s))) (limiters r)"
    by (simp add: maxOfWhen_def split_beta maxOfWhenLoop_snd)
  have n: "fst (maxOfNumRequeues r x) = Max (insert 0 (set (numRequeuesResults r x)))"
    by (simp add: maxOfNumRequeues_def split_beta maxOfNumRequeuesLoop_fst numRequeuesResults_def)
  have f: "limiters (maxOfForget r x)
       = map (\<lambda>(limiter, s). (limiter, Forget limiter x s)) (limiters r)"
    by (simp add: maxOfForget_def maxOfForgetLoop_eq)
  have w': "(\<exists>d \<in> set (whenResults r x). 0 \<le> d) \<longrightarrow>
        fst (maxOfWhen r x) = Max (set (whenResults r x))"
    using w Max_insert_zero [of "set (whenResults r x)"] by auto
  have n': "(\<exists>n \<in> set (numRequeuesResults r x). 0 \<le> n) \<longrightarrow>
        fst (maxOfNumRequeues r x) = Max (set (numRequeuesResults r x))"
    using n Max_insert_zero [of "set (numRequeuesResults r x)"] by auto
  from w ws n f w' n' show ?thesis by blast
qed

theorem maxOf_composition_witness:
  "whenResults twoExponentials ''x'' = [ms 10, ms 5]
   \<and> numRequeuesResults twoExponentials ''x'' = [0, 0]
   \<and> fst (maxOfWhen twoExponentials ''x'') = ms 10
   \<and> fst (maxOfNumRequeues twoExponentials ''x'') = 0"
proof -
  have a: "whenResults twoExponentials ''x'' = [ms 10, ms 5]"
    by (simp add: whenResults_def twoExponentials_def NewMaxOfRateLimiter_def itemExponential_def
        expWhen_eq New_fields failuresAt_New backoffAt_small)
  have b: "numRequeuesResults twoExponentials ''x'' = [0, 0]"
    by (simp add: numRequeuesResults_def twoExponentials_def NewMaxOfRateLimiter_def
        itemExponential_def expNumRequeues_def failuresAt_New)
  show ?thesis
    using a b maxOf_composition [of twoExponentials "''x''"] by (simp add: ms_def)
qed

text \<open>
  The claim as written fails: a single child whose \<^verbatim>\<open>When\<close> returns -1ns (an
  exponential limiter with base delay -1ns) makes the max-of limiter return 0.
\<close>

theorem maxOf_counterexample:
  "whenResults negativeExponential ''x'' = [- 1]
   \<and> fst (maxOfWhen negativeExponential ''x'') = 0"
  by (simp add: whenResults_def maxOfWhen_def negativeExponential_def NewMaxOfRateLimiter_def
      itemExponential_def expWhen_eq New_fields failuresAt_New backoffAt_small split_beta)

section \<open>The bookkeeping of the work queue\<close>












section \<open>The consistency of the indices of the thread-safe store\<close>

lemma bucketI_deleteValues:
  "bucketI (deleteValues key vals index) v
     = (if v \<in> set vals then bucketI index v - {key} else bucketI index v)"
  by (induction vals arbitrary: index) (auto simp: bucketI_def split: option.splits if_splits)

lemma nonempty_deleteValues:
  "\<forall>v. index v \<noteq> Some {} \<Longrightarrow> deleteValues key vals index v \<noteq> Some {}"
  by (induction vals arbitrary: index) (auto split: option.splits)

lemma bucketI_insertValues:
  "bucketI (insertValues key vals index) v
     = (if v \<in> set vals then insert key (bucketI index v) else bucketI index v)"
  by (induction vals arbitrary: index) (auto simp: bucketI_def split: option.splits if_splits)

lemma nonempty_insertValues:
  "\<forall>v. index v \<noteq> Some {} \<Longrightarrow> insertValues key vals index v \<noteq> Some {}"
  by (induction vals arbitrary: index) (auto split: option.splits)

lemma bucketOf_bucketI:
  "bucketOf ind n v = (case ind n of None \<Rightarrow> {} | Some index \<Rightarrow> bucketI index v)"
  by (simp add: bucketOf_def bucketI_def split: option.splits)

lemma deleteLoop_other:
  "deleteLoop l obj key ind = Inr ind' \<Longrightarrow> n \<notin> fst ` set l \<Longrightarrow> ind' n = ind n"
  by (induction l arbitrary: ind) (auto split: sum.splits option.splits)

lemma deleteLoop_ok:
  "deleteLoop l obj key ind = Inr ind' \<Longrightarrow> (n, f) \<in> set l \<Longrightarrow> \<exists>vals. f obj = Inr vals"
  by (induction l arbitrary: ind) (auto split: sum.splits option.splits)

lemma deleteLoop_at:
  "deleteLoop l obj key ind = Inr ind' \<Longrightarrow> distinct (map fst l) \<Longrightarrow> (n, f) \<in> set l \<Longrightarrow>
   f obj = Inr vals \<Longrightarrow> ind' n = map_option (deleteValues key vals) (ind n)"
proof (induction l arbitrary: ind)
  case Nil
  then show ?case by simp
next
  case (Cons a l)
  obtain n0 f0 where a: "a = (n0, f0)" by (cases a)
  from Cons.prems(1) obtain vals0 where v0: "f0 obj = Inr vals0"
    by (auto simp: a split: sum.splits)
  define ind1 where "ind1 = (case ind n0 of None \<Rightarrow> ind
      | Some index \<Rightarrow> ind(n0 \<mapsto> deleteValues key vals0 index))"
  have run: "deleteLoop l obj key ind1 = Inr ind'"
    using Cons.prems(1) by (auto simp: a v0 ind1_def split: option.splits)
  show ?case
  proof (cases "n = n0")
    case True
    with Cons.prems(2,3) a have "f = f0" and notin: "n0 \<notin> fst ` set l"
      by (auto simp: rev_image_eqI)
    with v0 Cons.prems(4) have "vals = vals0" by simp
    moreover have "ind' n0 = ind1 n0"
      using deleteLoop_other [OF run notin] .
    ultimately show ?thesis
      using True by (simp add: ind1_def split: option.splits)
  next
    case False
    with Cons.prems(3) a have "(n, f) \<in> set l" by auto
    moreover have "distinct (map fst l)" using Cons.prems(2) by simp
    ultimately have "ind' n = map_option (deleteValues key vals) (ind1 n)"
      using Cons.IH [OF run] Cons.prems(4) by blast
    with False show ?thesis by (simp add: ind1_def split: option.splits)
  qed
qed

lemma insertLoop_other:
  "insertLoop l obj key ind = Inr ind' \<Longrightarrow> n \<notin> fst ` set l \<Longrightarrow> ind' n = ind n"
  by (induction l arbitrary: ind) (auto split: sum.splits option.splits)

lemma insertLoop_ok:
  "insertLoop l obj key ind = Inr ind' \<Longrightarrow> (n, f) \<in> set l \<Longrightarrow> \<exists>vals. f obj = Inr vals"
  by (induction l arbitrary: ind) (auto split: sum.splits option.splits)

lemma insertLoop_at:
  "insertLoop l obj key ind = Inr ind' \<Longrightarrow> distinct (map fst l) \<Longrightarrow> (n, f) \<in> set l \<Longrightarrow>
   f obj = Inr vals \<Longrightarrow>
   ind' n = Some (insertValues key vals (case ind n of None \<Rightarrow> Map.empty | Some index \<Rightarrow> index))"
proof (induction l arbitrary: ind)
  case Nil
  then show ?case by simp
next
  case (Cons a l)
  obtain n0 f0 where a: "a = (n0, f0)" by (cases a)
  from Cons.prems(1) obtain vals0 where v0: "f0 obj = Inr vals0"
    by (auto simp: a split: sum.splits)
  define ind1 where "ind1 = ind(n0 \<mapsto>
      insertValues key vals0 (case ind n0 of None \<Rightarrow> Map.empty | Some index \<Rightarrow> index))"
  have run: "insertLoop l obj key ind1 = Inr ind'"
    using Cons.prems(1) by (simp add: a v0 ind1_def)
  show ?case
  proof (cases "n = n0")
    case True
    with Cons.prems(2,3) a have "f = f0" and notin: "n0 \<notin> fst ` set l"
      by (auto simp: rev_image_eqI)
    with v0 Cons.prems(4) have "vals = vals0" by simp
    moreover have "ind' n0 = ind1 n0"
      using insertLoop_other [OF run notin] .
    ultimately show ?thesis
      using True by (simp add: ind1_def)
  next
    case False
    with Cons.prems(3) a have "(n, f) \<in> set l" by auto
    moreover have "distinct (map fst l)" using Cons.prems(2) by simp
    ultimately have "ind' n
        = Some (insertValues key vals (case ind1 n of None \<Rightarrow> Map.empty | Some index \<Rightarrow> index))"
      using Cons.IH [OF run] Cons.prems(4) by blast
    with False show ?thesis by (simp add: ind1_def)
  qed
qed


lemma bucketOf_deleteLoop:
  assumes "deleteLoop l obj key ind = Inr ind'" "distinct (map fst l)" "(n, f) \<in> set l"
    "f obj = Inr vals"
  shows "bucketOf ind' n v
     = (if v \<in> set vals then bucketOf ind n v - {key} else bucketOf ind n v)"
  using deleteLoop_at [OF assms]
  by (simp add: bucketOf_bucketI bucketI_deleteValues split: option.splits)

lemma bucketOf_insertLoop:
  assumes "insertLoop l obj key ind = Inr ind'" "distinct (map fst l)" "(n, f) \<in> set l"
    "f obj = Inr vals"
  shows "bucketOf ind' n v
     = (if v \<in> set vals then insert key (bucketOf ind n v) else bucketOf ind n v)"
proof -
  define index0 where "index0 = (case ind n of None \<Rightarrow> Map.empty | Some index \<Rightarrow> index)"
  have "ind' n = Some (insertValues key vals index0)"
    using insertLoop_at [OF assms] by (simp add: index0_def)
  then have "bucketOf ind' n v = bucketI (insertValues key vals index0) v"
    by (simp add: bucketOf_bucketI)
  moreover have "bucketI index0 v = bucketOf ind n v"
    by (simp add: index0_def bucketOf_bucketI bucketI_def split: option.splits)
  ultimately show ?thesis
    by (simp add: bucketI_insertValues)
qed

lemma nonempty_deleteLoop:
  assumes "deleteLoop l obj key ind = Inr ind'" "distinct (map fst l)"
    "\<forall>n index v. ind n = Some index \<longrightarrow> index v \<noteq> Some {}"
  shows "ind' n = Some index \<Longrightarrow> index v \<noteq> Some {}"
proof (cases "n \<in> fst ` set l")
  case False
  assume "ind' n = Some index"
  with deleteLoop_other [OF assms(1) False] assms(3) show ?thesis by simp
next
  case True
  assume i: "ind' n = Some index"
  from True obtain f where nf: "(n, f) \<in> set l" by auto
  from deleteLoop_ok [OF assms(1) nf] obtain vals where vals: "f obj = Inr vals" by blast
  from deleteLoop_at [OF assms(1,2) nf vals] i
  obtain index0 where "ind n = Some index0" "index = deleteValues key vals index0"
    by (auto simp: map_option_case split: option.splits)
  with assms(3) show ?thesis by (simp add: nonempty_deleteValues)
qed

lemma nonempty_insertLoop:
  assumes "insertLoop l obj key ind = Inr ind'" "distinct (map fst l)"
    "\<forall>n index v. ind n = Some index \<longrightarrow> index v \<noteq> Some {}"
  shows "ind' n = Some index \<Longrightarrow> index v \<noteq> Some {}"
proof (cases "n \<in> fst ` set l")
  case False
  assume "ind' n = Some index"
  with insertLoop_other [OF assms(1) False] assms(3) show ?thesis by simp
next
  case True
  assume i: "ind' n = Some index"
  from True obtain f where nf: "(n, f) \<in> set l" by auto
  from insertLoop_ok [OF assms(1) nf] obtain vals where vals: "f obj = Inr vals" by blast
  have "\<forall>v. (case ind n of None \<Rightarrow> Map.empty | Some index \<Rightarrow> index) v \<noteq> Some {}"
    using assms(3) by (simp split: option.splits)
  with insertLoop_at [OF assms(1,2) nf vals] i show ?thesis
    by (simp add: nonempty_insertValues)
qed

lemma consistent_delete:
  assumes c: "consistent l its ind" and d: "distinct (map fst l)"
    and old: "its key = Some old" and run: "deleteLoop l old key ind = Inr ind1"
  shows "consistent l (its(key := None)) ind1"
  unfolding consistent_def
proof (intro conjI allI impI)
  fix n f v k
  assume nf: "(n, f) \<in> set l"
  from deleteLoop_ok [OF run nf] obtain vals where vals: "f old = Inr vals" by blast
  have b: "bucketOf ind1 n v
     = (if v \<in> set vals then bucketOf ind n v - {key} else bucketOf ind n v)"
    by (rule bucketOf_deleteLoop [OF run d nf vals])
  have a: "(k \<in> bucketOf ind n v) = indexedUnder f its k v" for k
    using c nf by (simp add: consistent_def)
  show "(k \<in> bucketOf ind1 n v) = indexedUnder f (its(key := None)) k v"
  proof (cases "k = key")
    case True
    have "indexedUnder f its key v = (v \<in> set vals)"
      by (simp add: indexedUnder_def old vals)
    with True a [of key] b show ?thesis by (simp add: indexedUnder_def)
  next
    case False
    with a [of k] b show ?thesis by (simp add: indexedUnder_def)
  qed
next
  fix n index v
  assume "ind1 n = Some index"
  then show "index v \<noteq> Some {}"
    using nonempty_deleteLoop [OF run d] c by (simp add: consistent_def)
qed

lemma consistent_insert:
  assumes c: "consistent l its ind" and d: "distinct (map fst l)"
    and absent: "its key = None" and run: "insertLoop l obj key ind = Inr ind2"
  shows "consistent l (its(key \<mapsto> obj)) ind2"
  unfolding consistent_def
proof (intro conjI allI impI)
  fix n f v k
  assume nf: "(n, f) \<in> set l"
  from insertLoop_ok [OF run nf] obtain vals where vals: "f obj = Inr vals" by blast
  have b: "bucketOf ind2 n v
     = (if v \<in> set vals then insert key (bucketOf ind n v) else bucketOf ind n v)"
    by (rule bucketOf_insertLoop [OF run d nf vals])
  have a: "(k \<in> bucketOf ind n v) = indexedUnder f its k v" for k
    using c nf by (simp add: consistent_def)
  show "(k \<in> bucketOf ind2 n v) = indexedUnder f (its(key \<mapsto> obj)) k v"
  proof (cases "k = key")
    case True
    have "\<not> indexedUnder f its key v"
      by (simp add: indexedUnder_def absent)
    with True a [of key] b show ?thesis by (simp add: indexedUnder_def vals)
  next
    case False
    with a [of k] b show ?thesis by (simp add: indexedUnder_def)
  qed
next
  fix n index v
  assume "ind2 n = Some index"
  then show "index v \<noteq> Some {}"
    using nonempty_insertLoop [OF run d] c by (simp add: consistent_def)
qed

lemma updateIndices_run:
  assumes "updateIndices c oldObj newObj key = Inr c'"
  shows "items c' = items c \<and> indexers c' = indexers c
       \<and> (\<exists>ind1.
            (if oldObj \<noteq> nil
             then deleteLoop (DAList.impl_of (indexers c)) oldObj key (indices c) = Inr ind1
             else ind1 = indices c)
            \<and> insertLoop (DAList.impl_of (indexers c)) newObj key ind1 = Inr (indices c'))"
  using assms
  by (auto simp: updateIndices_def deleteFromIndices_def split: sum.splits if_splits)

lemma consistent_put:
  assumes c: "consistent (DAList.impl_of (indexers c)) its (indices c)"
    and nonil: "\<forall>k. its k \<noteq> Some nil"
    and old: "oldObj = (case its key of None \<Rightarrow> nil | Some obj \<Rightarrow> obj)"
    and run: "updateIndices c oldObj newObj key = Inr c'"
  shows "consistent (DAList.impl_of (indexers c)) (its(key \<mapsto> newObj)) (indices c')"
proof -
  let ?l = "DAList.impl_of (indexers c)"
  have d: "distinct (map fst ?l)" by simp
  from updateIndices_run [OF run] obtain ind1 where
    del: "if oldObj \<noteq> nil then deleteLoop ?l oldObj key (indices c) = Inr ind1
          else ind1 = indices c"
    and ins: "insertLoop ?l newObj key ind1 = Inr (indices c')"
    by blast
  show ?thesis
  proof (cases "its key")
    case None
    with old del have "ind1 = indices c" by simp
    with ins have "insertLoop ?l newObj key (indices c) = Inr (indices c')" by simp
    from consistent_insert [OF c d None this] show ?thesis .
  next
    case (Some obj)
    with nonil have "obj \<noteq> nil" by metis
    with old Some del have "deleteLoop ?l obj key (indices c) = Inr ind1" by simp
    from consistent_delete [OF c d Some this]
    have c2: "consistent ?l (its(key := None)) ind1" .
    have gone: "(its(key := None)) key = None" by simp
    have e: "(its(key := None))(key \<mapsto> newObj) = its(key \<mapsto> newObj)" by simp
    from consistent_insert [OF c2 d gone ins]
    show ?thesis unfolding e .
  qed
qed

lemma storeInv_Add:
  assumes "storeInv c" "obj \<noteq> nil" "tsAdd c key obj = Inr c'"
  shows "storeInv c'"
proof -
  let ?c0 = "c\<lparr>items := (items c)(key \<mapsto> obj)\<rparr>"
  have run: "updateIndices ?c0 (case items c key of None \<Rightarrow> nil | Some obj \<Rightarrow> obj) obj key = Inr c'"
    using assms(3) by (simp add: tsAdd_def itemAt_def)
  have c0: "consistent (DAList.impl_of (indexers ?c0)) (items c) (indices ?c0)"
    using assms(1) by (simp add: storeInv_def)
  have nn: "\<forall>k. items c k \<noteq> Some nil"
    using assms(1) by (simp add: storeInv_def)
  have old: "(case items c key of None \<Rightarrow> nil | Some obj \<Rightarrow> obj)
      = (case items c key of None \<Rightarrow> nil | Some obj \<Rightarrow> obj)"
    by simp
  have "consistent (DAList.impl_of (indexers ?c0)) ((items c)(key \<mapsto> obj)) (indices c')"
    by (rule consistent_put [OF c0 nn old run])
  moreover from updateIndices_run [OF run]
  have "items c' = (items c)(key \<mapsto> obj)" "indexers c' = indexers c" by simp_all
  ultimately show ?thesis
    using assms(1,2) by (simp add: storeInv_def)
qed

lemma tsUpdate_eq_tsAdd: "tsUpdate c key obj = tsAdd c key obj"
  by (simp add: tsUpdate_def tsAdd_def)

lemma storeInv_Delete:
  assumes "storeInv c" "tsDelete c key = Inr c'"
  shows "storeInv c'"
proof (cases "items c key")
  case None
  with assms show ?thesis by (simp add: tsDelete_def)
next
  case (Some obj)
  let ?l = "DAList.impl_of (indexers c)"
  from assms(2) Some obtain ind1 where
    del: "deleteLoop ?l obj key (indices c) = Inr ind1"
    and c': "c' = c\<lparr>indices := ind1, items := (items c)(key := None)\<rparr>"
    by (auto simp: tsDelete_def deleteFromIndices_def split: sum.splits)
  have "consistent ?l (items c) (indices c)"
    using assms(1) by (simp add: storeInv_def)
  moreover have "distinct (map fst ?l)" by simp
  ultimately have "consistent ?l ((items c)(key := None)) ind1"
    using Some del by (rule consistent_delete)
  then show ?thesis
    using assms(1) by (simp add: storeInv_def c')
qed

lemma map_add_upd_left:
  "m2 k = None \<Longrightarrow> (m1(k \<mapsto> v)) ++ m2 = (m1 ++ m2)(k \<mapsto> v)"
  by (rule ext) (simp add: map_add_def split: option.splits)

lemma rebuildLoop_consistent:
  assumes "rebuildLoop kvs c = Inr c'" "distinct (map fst kvs)"
    "consistent (DAList.impl_of (indexers c)) its (indices c)"
    "\<forall>k. its k \<noteq> Some nil" "\<forall>k \<in> fst ` set kvs. its k = None"
    "nil \<notin> snd ` set kvs"
  shows "consistent (DAList.impl_of (indexers c)) (its ++ map_of kvs) (indices c')
       \<and> items c' = items c \<and> indexers c' = indexers c"
  using assms
proof (induction kvs arbitrary: c its)
  case Nil
  then show ?case by simp
next
  case (Cons a kvs)
  obtain k obj where a: "a = (k, obj)" by (cases a)
  from Cons.prems(1) obtain c1 where
    step: "updateIndices c nil obj k = Inr c1" and rest: "rebuildLoop kvs c1 = Inr c'"
    by (auto simp: a split: sum.splits)
  have absent: "its k = None" using Cons.prems(5) by (simp add: a)
  have old: "nil = (case its k of None \<Rightarrow> nil | Some obj \<Rightarrow> obj)"
    by (simp add: absent)
  have same: "items c1 = items c" "indexers c1 = indexers c"
    using updateIndices_run [OF step] by simp_all
  have "consistent (DAList.impl_of (indexers c)) (its(k \<mapsto> obj)) (indices c1)"
    by (rule consistent_put [OF Cons.prems(3,4) old step])
  then have c1: "consistent (DAList.impl_of (indexers c1)) (its(k \<mapsto> obj)) (indices c1)"
    by (simp add: same)
  have d: "distinct (map fst kvs)" and knew: "k \<notin> fst ` set kvs"
    using Cons.prems(2) by (simp_all add: a)
  have fresh: "map_of kvs k = None"
    using knew by (simp add: map_of_eq_None_iff)
  have "obj \<noteq> nil"
    using Cons.prems(6) by (auto simp: a)
  with Cons.prems(4) have nonil: "\<forall>k'. (its(k \<mapsto> obj)) k' \<noteq> Some nil"
    by simp
  have absent': "\<forall>k' \<in> fst ` set kvs. (its(k \<mapsto> obj)) k' = None"
    using Cons.prems(5) knew by (auto simp: a)
  have nn: "nil \<notin> snd ` set kvs"
    using Cons.prems(6) by auto
  from Cons.IH [OF rest d c1 nonil absent' nn]
  have r1: "consistent (DAList.impl_of (indexers c1)) (its(k \<mapsto> obj) ++ map_of kvs) (indices c')"
    and r2: "items c' = items c1" and r3: "indexers c' = indexers c1"
    by blast+
  have e: "its(k \<mapsto> obj) ++ map_of kvs = its ++ map_of (a # kvs)"
    using map_add_upd_left [of "map_of kvs" k its obj] fresh by (simp add: a)
  have g1: "consistent (DAList.impl_of (indexers c)) (its ++ map_of (a # kvs)) (indices c')"
    using r1 unfolding e same(2) .
  have g2: "items c' = items c" using r2 same(1) by simp
  have g3: "indexers c' = indexers c" using r3 same(2) by simp
  from g1 g2 g3 show ?case by blast
qed

lemma consistent_empty: "consistent l Map.empty Map.empty"
  by (simp add: consistent_def bucketOf_def indexedUnder_def)

lemma storeInv_Replace:
  assumes "nil \<notin> snd ` set (DAList.impl_of newItems)" "tsReplace c newItems = Inr c'"
  shows "storeInv c'"
proof -
  let ?c0 = "c\<lparr>items := DAList.lookup newItems, indices := Map.empty\<rparr>"
  let ?kvs = "DAList.impl_of newItems"
  have run: "rebuildLoop ?kvs ?c0 = Inr c'"
    using assms(2) by (simp add: tsReplace_def)
  have d: "distinct (map fst ?kvs)" by simp
  have c0: "consistent (DAList.impl_of (indexers ?c0)) Map.empty (indices ?c0)"
    by (simp add: consistent_empty)
  have e1: "\<forall>k. (Map.empty :: string \<rightharpoonup> 'a object) k \<noteq> Some nil" by simp
  have e2: "\<forall>k \<in> fst ` set ?kvs. (Map.empty :: string \<rightharpoonup> 'a object) k = None" by simp
  from rebuildLoop_consistent [OF run d c0 e1 e2 assms(1)]
  have "consistent (DAList.impl_of (indexers c')) (map_of ?kvs) (indices c')"
    and its: "items c' = map_of ?kvs"
    by (simp_all add: DAList.lookup.rep_eq)
  moreover have "\<forall>k. map_of ?kvs k \<noteq> Some nil"
    using assms(1) by (metis map_of_SomeD snd_conv image_eqI)
  ultimately show ?thesis by (simp add: storeInv_def)
qed

lemma storeInv_New: "storeInv (NewThreadSafeStore ixs Map.empty)"
  by (simp add: storeInv_def NewThreadSafeStore_def consistent_empty)



lemma storeInv_tsCall:
  assumes "storeInv c" "storesNoNil call" "tsCall c call = Inr c'"
  shows "storeInv c'"
proof (cases call)
  case (CallStoreAdd key obj)
  with assms(2,3) have "obj \<noteq> nil" "tsAdd c key obj = Inr c'" by simp_all
  with assms(1) show ?thesis by (rule storeInv_Add)
next
  case (CallStoreUpdate key obj)
  with assms(2,3) have "obj \<noteq> nil" "tsAdd c key obj = Inr c'"
    by (simp_all add: tsUpdate_eq_tsAdd)
  with assms(1) show ?thesis by (rule storeInv_Add)
next
  case (CallStoreDelete key)
  with assms(3) have "tsDelete c key = Inr c'" by simp
  with assms(1) show ?thesis by (rule storeInv_Delete)
next
  case (CallStoreReplace newItems)
  with assms(2,3) have "nil \<notin> snd ` set (DAList.impl_of newItems)"
    "tsReplace c newItems = Inr c'" by simp_all
  then show ?thesis by (rule storeInv_Replace)
qed

lemma indexers_updateIndices: "updateIndices c oldObj newObj key = Inr c' \<Longrightarrow> indexers c' = indexers c"
  using updateIndices_run [of c oldObj newObj key c'] by simp

lemma indexers_rebuildLoop: "rebuildLoop kvs c = Inr c' \<Longrightarrow> indexers c' = indexers c"
proof (induction kvs arbitrary: c)
  case Nil
  then show ?case by simp
next
  case (Cons a kvs)
  obtain k obj where a: "a = (k, obj)" by (cases a)
  from Cons.prems obtain c1 where
    step: "updateIndices c nil obj k = Inr c1" and rest: "rebuildLoop kvs c1 = Inr c'"
    by (auto simp: a split: sum.splits)
  from Cons.IH [OF rest] indexers_updateIndices [OF step] show ?case by simp
qed

lemma indexers_tsCall:
  assumes "tsCall c call = Inr c'"
  shows "indexers c' = indexers c"
proof (cases call)
  case (CallStoreAdd key obj)
  with assms have "updateIndices (c\<lparr>items := (items c)(key \<mapsto> obj)\<rparr>) (itemAt c key) obj key = Inr c'"
    by (simp add: tsAdd_def)
  from indexers_updateIndices [OF this] show ?thesis by simp
next
  case (CallStoreUpdate key obj)
  with assms have "updateIndices (c\<lparr>items := (items c)(key \<mapsto> obj)\<rparr>) (itemAt c key) obj key = Inr c'"
    by (simp add: tsUpdate_def)
  from indexers_updateIndices [OF this] show ?thesis by simp
next
  case (CallStoreDelete key)
  with assms have "tsDelete c key = Inr c'" by simp
  then show ?thesis
    by (auto simp: tsDelete_def deleteFromIndices_def split: option.splits sum.splits)
next
  case (CallStoreReplace newItems)
  with assms have "rebuildLoop (DAList.impl_of newItems)
      (c\<lparr>items := DAList.lookup newItems, indices := Map.empty\<rparr>) = Inr c'"
    by (simp add: tsReplace_def)
  from indexers_rebuildLoop [OF this] show ?thesis by simp
qed

lemma storeInv_tsCalls:
  "storeInv c \<Longrightarrow> list_all storesNoNil calls \<Longrightarrow> tsCalls c calls = Inr c' \<Longrightarrow>
   storeInv c' \<and> indexers c' = indexers c"
proof (induction calls arbitrary: c)
  case Nil
  then show ?case by simp
next
  case (Cons call calls)
  from Cons.prems(3) obtain c1 where
    step: "tsCall c call = Inr c1" and rest: "tsCalls c1 calls = Inr c'"
    by (auto split: sum.splits)
  from Cons.prems(2) have nn: "storesNoNil call" "list_all storesNoNil calls" by simp_all
  have "storeInv c1" by (rule storeInv_tsCall [OF Cons.prems(1) nn(1) step])
  from Cons.IH [OF this nn(2) rest] indexers_tsCall [OF step] show ?case by simp
qed

lemma labelIndexers_impl: "DAList.impl_of labelIndexers = [(''byLabel'', byLabel)]"
  by (simp add: labelIndexers_def DAList.update.rep_eq DAList.empty.rep_eq)

lemma labelIndexers_lookup: "DAList.lookup labelIndexers ''byLabel'' = Some byLabel"
  by (simp add: DAList.lookup.rep_eq labelIndexers_impl)

lemma labelCalls_run:
  "tsCalls (NewThreadSafeStore labelIndexers Map.empty) labelCalls
     = Inr \<lparr>items = [''k1'' \<mapsto> Obj ''b''], indexers = labelIndexers,
            indices = [''byLabel'' \<mapsto> [''b'' \<mapsto> {''k1''}]]\<rparr>"
proof -
  have "{''k2'', ''k1''} - {''k1''} = {''k2''}" by auto
  then show ?thesis
    by (simp add: labelCalls_def NewThreadSafeStore_def tsAdd_def tsUpdate_def tsDelete_def
        itemAt_def updateIndices_def deleteFromIndices_def labelIndexers_impl byLabel_def)
qed

lemma replaceCalls_run:
  "tsCalls (NewThreadSafeStore labelIndexers Map.empty) replaceCalls
     = Inr \<lparr>items = [''k2'' \<mapsto> Obj ''b'', ''k3'' \<mapsto> Obj ''b''], indexers = labelIndexers,
            indices = [''byLabel'' \<mapsto> [''b'' \<mapsto> {''k2'', ''k3''}]]\<rparr>"
  by (simp add: replaceCalls_def NewThreadSafeStore_def tsAdd_def tsReplace_def
      itemAt_def updateIndices_def deleteFromIndices_def labelIndexers_impl byLabel_def
      DAList.update.rep_eq DAList.empty.rep_eq DAList.lookup.rep_eq)

lemma nilCalls_run:
  "tsCalls (NewThreadSafeStore labelIndexers Map.empty) nilCalls
     = Inr \<lparr>items = [''k'' \<mapsto> Obj ''b''], indexers = labelIndexers,
            indices = [''byLabel'' \<mapsto> [''<nil>'' \<mapsto> {''k''}, ''b'' \<mapsto> {''k''}]]\<rparr>"
  by (simp add: nilCalls_def NewThreadSafeStore_def tsAdd_def
      itemAt_def updateIndices_def deleteFromIndices_def labelIndexers_impl byLabel_def)

text \<open>
  C1, as the code has it. For every sequence of \<^verbatim>\<open>Add\<close>, \<^verbatim>\<open>Update\<close>, \<^verbatim>\<open>Delete\<close> and
  \<^verbatim>\<open>Replace\<close> calls on a store created with empty indices, when the sequence
  stores no nil object and runs to its end without a panic of an index
  function: the indexers are those of the creation; for every registered index
  name \<open>n\<close>, every index value \<open>v\<close> and every key \<open>k\<close>, the key \<open>k\<close> is in
  \<^verbatim>\<open>indices[n][v]\<close> if and only if \<open>k\<close> is present in the items and \<open>v\<close> is among
  the values that the index function returns for the object stored under \<open>k\<close>;
  and no bucket is the empty set.
\<close>

theorem store_index_consistency:
  assumes "tsCalls (NewThreadSafeStore ixs Map.empty) calls = Inr c"
    and "list_all storesNoNil calls"
  shows "indexers c = ixs
       \<and> (DAList.lookup (indexers c) n = Some f \<longrightarrow>
            (k \<in> bucket c n v) = indexedUnder f (items c) k v)
       \<and> (indices c n = Some index \<longrightarrow> index v \<noteq> Some {})"
proof -
  from storeInv_tsCalls [OF storeInv_New assms(2) assms(1)]
  have inv: "storeInv c" and ix: "indexers c = ixs"
    by (simp_all add: NewThreadSafeStore_def)
  from inv have cons: "consistent (DAList.impl_of (indexers c)) (items c) (indices c)"
    unfolding storeInv_def by (rule conjunct1)
  have a: "(k \<in> bucket c n v) = indexedUnder f (items c) k v"
    if "DAList.lookup (indexers c) n = Some f"
  proof -
    from that have "map_of (DAList.impl_of (indexers c)) n = Some f"
      by (simp add: DAList.lookup.rep_eq)
    then have m: "(n, f) \<in> set (DAList.impl_of (indexers c))"
      by (rule map_of_SomeD)
    from cons
    have "\<forall>n f v k. (n, f) \<in> set (DAList.impl_of (indexers c)) \<longrightarrow>
        (k \<in> bucketOf (indices c) n v) = indexedUnder f (items c) k v"
      unfolding consistent_def by (rule conjunct1)
    with m show ?thesis
      unfolding bucket_def by blast
  qed
  have b: "index v \<noteq> Some {}" if "indices c n = Some index"
  proof -
    from cons have "\<forall>n index v. indices c n = Some index \<longrightarrow> index v \<noteq> Some {}"
      unfolding consistent_def by (rule conjunct2)
    with that show ?thesis by blast
  qed
  from ix a b show ?thesis by blast
qed

theorem store_index_consistency_witness:
  "tsCalls (NewThreadSafeStore labelIndexers Map.empty) labelCalls
     = Inr \<lparr>items = [''k1'' \<mapsto> Obj ''b''], indexers = labelIndexers,
            indices = [''byLabel'' \<mapsto> [''b'' \<mapsto> {''k1''}]]\<rparr>
   \<and> list_all storesNoNil labelCalls
   \<and> tsCalls (NewThreadSafeStore labelIndexers Map.empty) replaceCalls
     = Inr \<lparr>items = [''k2'' \<mapsto> Obj ''b'', ''k3'' \<mapsto> Obj ''b''], indexers = labelIndexers,
            indices = [''byLabel'' \<mapsto> [''b'' \<mapsto> {''k2'', ''k3''}]]\<rparr>
   \<and> list_all storesNoNil replaceCalls
   \<and> DAList.lookup labelIndexers ''byLabel'' = Some byLabel
   \<and> indices
        \<lparr>items = [''k1'' \<mapsto> Obj ''b''], indexers = labelIndexers,
         indices = [''byLabel'' \<mapsto> [''b'' \<mapsto> {''k1''}]]\<rparr> ''byLabel''
       = Some [''b'' \<mapsto> {''k1''}]
   \<and> [''b'' \<mapsto> {''k1''}] ''b'' \<noteq> Some {}
   \<and> indexedUnder byLabel [''k1'' \<mapsto> Obj ''b''] ''k1'' ''b''
   \<and> \<not> indexedUnder byLabel [''k1'' \<mapsto> Obj ''b''] ''k1'' ''a''
   \<and> \<not> indexedUnder byLabel [''k1'' \<mapsto> Obj ''b''] ''k2'' ''a''
   \<and> indexedUnder byLabel [''k2'' \<mapsto> Obj ''b'', ''k3'' \<mapsto> Obj ''b''] ''k3'' ''b''
   \<and> \<not> indexedUnder byLabel [''k2'' \<mapsto> Obj ''b'', ''k3'' \<mapsto> Obj ''b''] ''k1'' ''a''"
proof -
  have a: "list_all storesNoNil labelCalls"
    by (simp add: labelCalls_def)
  have b: "list_all storesNoNil replaceCalls"
    by (simp add: replaceCalls_def DAList.update.rep_eq DAList.empty.rep_eq)
  show ?thesis
    using a b
      store_index_consistency [OF labelCalls_run a, of "''byLabel''" byLabel "''k1''" "''b''"
        "[''b'' \<mapsto> {''k1''}]"]
      store_index_consistency [OF labelCalls_run a, of "''byLabel''" byLabel "''k1''" "''a''"]
      store_index_consistency [OF labelCalls_run a, of "''byLabel''" byLabel "''k2''" "''a''"]
      store_index_consistency [OF replaceCalls_run b, of "''byLabel''" byLabel "''k3''" "''b''"]
      store_index_consistency [OF replaceCalls_run b, of "''byLabel''" byLabel "''k1''" "''a''"]
    by (simp add: labelCalls_run replaceCalls_run labelIndexers_lookup bucket_def bucketOf_def)
qed

text \<open>
  The claim as written fails: \<^verbatim>\<open>updateIndices\<close> takes a nil old object for a
  missing one. With nil stored under \<open>k\<close>, the next \<^verbatim>\<open>Add\<close> for \<open>k\<close> does not remove
  \<open>k\<close> from the buckets of nil, and \<open>k\<close> stays in the bucket of the index value
  of nil although the object now stored under \<open>k\<close> is not indexed under it.
\<close>

theorem store_index_counterexample:
  "tsCalls (NewThreadSafeStore labelIndexers Map.empty) nilCalls
     = Inr \<lparr>items = [''k'' \<mapsto> Obj ''b''], indexers = labelIndexers,
            indices = [''byLabel'' \<mapsto> [''<nil>'' \<mapsto> {''k''}, ''b'' \<mapsto> {''k''}]]\<rparr>
   \<and> DAList.lookup labelIndexers ''byLabel'' = Some byLabel
   \<and> ''k'' \<in> bucket
        \<lparr>items = [''k'' \<mapsto> Obj ''b''], indexers = labelIndexers,
         indices = [''byLabel'' \<mapsto> [''<nil>'' \<mapsto> {''k''}, ''b'' \<mapsto> {''k''}]]\<rparr>
        ''byLabel'' ''<nil>''
   \<and> \<not> indexedUnder byLabel [''k'' \<mapsto> Obj ''b''] ''k'' ''<nil>''"
  by (simp add: nilCalls_run labelIndexers_lookup bucket_def bucketOf_def indexedUnder_def
      byLabel_def)

end
